theory Spec2Isabelle
  imports Main "HOL-Library.Word"
begin

section \<open>Telemetry file conversion: \<open>convert_tlm_file.py\<close>\<close>

text \<open>
  The module converts a binary telemetry capture into a CSV file.  It has four functions
  with logic of their own, \<open>hex_string\<close>, \<open>tlm_display_string\<close>, \<open>read_packet\<close>
  and \<open>main\<close>; \<open>decode_message\<close> only forwards to the external libraries
  \<open>EdsLib\<close> and \<open>CFE_MissionLib\<close>.  Each function is embedded as a HOL function over
  explicit data: Python exceptions are values of \<open>py_error\<close>, the text printed to the
  console and the strings written to the CSV file are lists that the functions return.
\<close>

type_synonym byte = "8 word"

datatype py_error = IndexError | ZeroDivisionError | OSError | DecodeError

subsection \<open>\<open>hex_string\<close>\<close>

text \<open>
  \<open>bytes.hex()\<close> is the Python built-in that \<open>main\<close> applies to a packet before it
  calls \<open>hex_string\<close>: two lower-case hexadecimal digits per byte.
\<close>

definition hex_digits :: string where
  "hex_digits = ''0123456789abcdef''"

definition bytes_hex :: "byte list \<Rightarrow> string" where
  "bytes_hex bs =
     concat (map (\<lambda>b. [hex_digits ! (unat b div 16), hex_digits ! (unat b mod 16)]) bs)"

text \<open>
  \<open>str.upper()\<close> on one character.  Characters of HOL are bytes, so the model covers
  ASCII, which is all that \<open>bytes.hex()\<close> produces.
\<close>

definition upper :: "char \<Rightarrow> char" where
  "upper c =
     (case map_of (zip ''abcdefghijklmnopqrstuvwxyz'' ''ABCDEFGHIJKLMNOPQRSTUVWXYZ'') c of
        Some u \<Rightarrow> u
      | None \<Rightarrow> c)"

text \<open>
  The loop \<open>for i in range(0, len(string), 2)\<close> with its two variables \<open>hex_str\<close> and
  \<open>count\<close>.  \<open>string[i+1]\<close> raises \<open>IndexError\<close> when the string has odd length, and
  \<open>count % bytes_per_line\<close> raises \<open>ZeroDivisionError\<close> when \<open>bytes_per_line\<close> is 0;
  the index is evaluated first, as in the source.
\<close>

fun hex_string_loop :: "string \<Rightarrow> nat \<Rightarrow> string \<Rightarrow> nat \<Rightarrow> py_error + string" where
  "hex_string_loop [] bytes_per_line hex_str count = Inr hex_str"
| "hex_string_loop [c] bytes_per_line hex_str count = Inl IndexError"
| "hex_string_loop (c # d # rest) bytes_per_line hex_str count =
     (let hex_str = hex_str @ ''0x'' @ [upper c] @ [upper d] @ '' '';
          count = count + 1
      in if bytes_per_line = 0 then Inl ZeroDivisionError
         else if count mod bytes_per_line = 0
              then hex_string_loop rest bytes_per_line (hex_str @ [CHR 0x0A]) count
              else hex_string_loop rest bytes_per_line hex_str count)"

definition hex_string :: "string \<Rightarrow> nat \<Rightarrow> py_error + string" where
  "hex_string string bytes_per_line = hex_string_loop string bytes_per_line '''' 0"

subsection \<open>\<open>tlm_display_string\<close>\<close>

text \<open>
  An EDS object as \<open>tlm_display_string\<close> sees it: \<open>eds_db.IsArray\<close> holds of an
  \<open>Array\<close>, which has a length and is indexed; \<open>eds_db.IsContainer\<close> holds of a
  \<open>Container\<close>, whose iteration yields (name, member) pairs in order; anything else is a
  \<open>Scalar\<close>, which carries the text that \<open>'{}'.format\<close> produces for it.
\<close>

datatype eds_object =
    Scalar string
  | Array "eds_object list"
  | Container "(string \<times> eds_object) list"

text \<open>The decimal text of an index, as the f-string \<open>f"{base_name}[{i}]"\<close> renders it.\<close>

fun str_nat :: "nat \<Rightarrow> string" where
  "str_nat n =
     (if n < 10 then [''0123456789'' ! n]
      else str_nat (n div 10) @ [''0123456789'' ! (n mod 10)])"

declare str_nat.simps [simp del]

text \<open>The format specification \<open>{:<60}\<close>: left-aligned, padded with spaces to 60.\<close>

definition ljust :: "string \<Rightarrow> nat \<Rightarrow> string" where
  "ljust s w = s @ replicate (w - length s) (CHR '' '')"

lemma size_nth_less: "i < length xs \<Longrightarrow> size (xs ! i) < Suc (size_list size xs)"
  by (metis less_Suc_eq_le nth_mem size_list_estimation' order_refl)

lemma size_snd_less:
  "(a, b) \<in> set fs \<Longrightarrow> size b < Suc (size_list (size_prod (\<lambda>_. 0) size) fs)"
  by (induction fs) auto

text \<open>
  The argument \<open>message\<close> is the accumulated result; the model pairs it with the lines
  printed so far, because the last branch prints.  The three branches are the source's
  \<open>if IsArray\<close>, \<open>elif IsContainer\<close> and \<open>else\<close>, in that order.
\<close>

function tlm_display_string ::
  "string \<Rightarrow> eds_object \<Rightarrow> string \<Rightarrow> string \<times> string list \<Rightarrow> string \<times> string list" where
  "tlm_display_string output_flag (Array elems) base_name message =
     foldl (\<lambda>result i.
              tlm_display_string output_flag (elems ! i)
                (base_name @ ''['' @ str_nat i @ '']'') result)
           message [0..<length elems]"
| "tlm_display_string output_flag (Container items) base_name message =
     foldl (\<lambda>result item.
              tlm_display_string output_flag (snd item)
                (base_name @ ''.'' @ fst item) result)
           message items"
| "tlm_display_string output_flag (Scalar base_object) base_name message =
     (case message of (result, console) \<Rightarrow>
        if output_flag = ''screen'' then
          (result @ ljust base_name 60 @ '' = '' @ base_object @ [CHR 0x0A], console)
        else if output_flag = ''labels'' then (result @ base_name @ '', '', console)
        else if output_flag = ''values'' then (result @ base_object @ '', '', console)
        else ('''', console @ [''Something went wrong in tlm_display_string'']))"
  by pat_completeness auto
termination
proof (relation "measure (\<lambda>(flag, obj, name, msg). size obj)")
  fix output_flag :: string and elems :: "eds_object list" and base_name :: string
    and message a :: "string \<times> string list" and x :: nat
  assume "x \<in> set [0..<length elems]"
  then show "((output_flag, elems ! x, base_name @ ''['' @ str_nat x @ '']'', a),
              (output_flag, Array elems, base_name, message))
             \<in> measure (\<lambda>(flag, obj, name, msg). size obj)"
    by (simp add: size_nth_less)
next
  fix output_flag :: string and items :: "(string \<times> eds_object) list"
    and base_name :: string and message a :: "string \<times> string list"
    and x :: "string \<times> eds_object"
  assume "x \<in> set items"
  then have "size (snd x) < Suc (size_list (size_prod (\<lambda>_. 0) size) items)"
    using size_snd_less[of "fst x" "snd x" items] by simp
  then show "((output_flag, snd x, base_name @ ''.'' @ fst x, a),
              (output_flag, Container items, base_name, message))
             \<in> measure (\<lambda>(flag, obj, name, msg). size obj)"
    by simp
qed simp

subsection \<open>\<open>read_packet\<close>\<close>

text \<open>
  A binary file opened for reading is represented by the bytes that lie after its read
  position.  \<open>file_object.read(n)\<close> returns at most \<open>n\<close> of them and moves the position
  past them; at the end of the file it returns the empty bytes object.  The length is a
  natural number: \<open>main\<close> obtains it from an unsigned \<open>int.from_bytes\<close>.
\<close>

type_synonym file_object = "byte list"

definition file_read :: "file_object \<Rightarrow> nat \<Rightarrow> byte list \<times> file_object" where
  "file_read f n = (take n f, drop n f)"

text \<open>
  \<open>read_packet\<close> is a generator: \<open>while True: packet = file_object.read(packet_length);
  if not packet: break; yield packet\<close>.  The model returns the whole sequence of yielded
  packets.  The source has no \<open>raise\<close> in it, so the sequence is all there is.
\<close>

function read_packet :: "file_object \<Rightarrow> nat \<Rightarrow> byte list list" where
  "read_packet file_object packet_length =
     (case file_read file_object packet_length of
        (packet, file_object') \<Rightarrow>
          if packet = [] then []
          else packet # read_packet file_object' packet_length)"
  by pat_completeness auto
termination
  by (relation "measure (\<lambda>(f, n). length f)") (auto simp: file_read_def)

declare read_packet.simps [simp del]

subsection \<open>\<open>main\<close>\<close>

text \<open>
  \<open>decode_message\<close> calls \<open>intf_db.DecodeEdsId\<close>, \<open>EdsLib.DatabaseEntry\<close> and the
  entry's constructor, all of them external; the model takes it as a parameter that
  either raises or returns the topic id, the entry's \<open>Name\<close> and the decoded object.
\<close>

type_synonym decoder = "byte list \<Rightarrow> py_error + (nat \<times> string \<times> eds_object)"

text \<open>\<open>int.from_bytes(b, byteorder='big', signed=False)\<close>; the empty bytes give 0.\<close>

definition int_from_bytes :: "byte list \<Rightarrow> nat" where
  "int_from_bytes bs = foldl (\<lambda>acc b. acc * 256 + unat b) 0 bs"

text \<open>
  What a run of \<open>main\<close> leaves behind: whether the input and output handles are open,
  the strings passed to \<open>fout.write\<close> in order, the arguments of \<open>print\<close> in order, and
  the flag \<open>labels_printed\<close>.
\<close>

record run_state =
  fin_open :: bool
  fout_open :: bool
  fout_written :: "string list"
  printed :: "string list"
  labels_printed :: bool

datatype outcome = Returned | Exited nat | Raised py_error

text \<open>
  \<open>csv_string = tlm_display_string(flag, eds_db, eds_object, eds_entry.Name) + '\n'\<close>
  followed by \<open>fout.write(csv_string)\<close>; \<open>message\<close> has its default \<open>''\<close>.
\<close>

definition write_row :: "string \<Rightarrow> eds_object \<Rightarrow> string \<Rightarrow> run_state \<Rightarrow> run_state" where
  "write_row output_flag eds_object name st =
     (case tlm_display_string output_flag eds_object name ('''', printed st) of
        (csv_string, console) \<Rightarrow>
          st\<lparr>fout_written := fout_written st @ [csv_string @ [CHR 0x0A]],
             printed := console\<rparr>)"

text \<open>
  The body of \<open>for packet in read_packet(fin, packet_length)\<close>.  An exception of
  \<open>decode_message\<close> is not caught: it leaves the loop and \<open>main\<close> at once.
\<close>

fun main_loop :: "decoder \<Rightarrow> bool \<Rightarrow> byte list list \<Rightarrow> run_state \<Rightarrow> outcome \<times> run_state" where
  "main_loop decode_message screen_flag [] st = (Returned, st)"
| "main_loop decode_message screen_flag (packet # packets) st =
     (case decode_message packet of
        Inl e \<Rightarrow> (Raised e, st)
      | Inr (topic_id, name, eds_object) \<Rightarrow>
          let st1 = (if \<not> labels_printed st
                     then (write_row ''labels'' eds_object name st)\<lparr>labels_printed := True\<rparr>
                     else st);
              st2 = write_row ''values'' eds_object name st1
          in if screen_flag then
               (case hex_string (bytes_hex packet) 16 of
                  Inl e \<Rightarrow> (Raised e, st2)
                | Inr dump \<Rightarrow>
                    (case tlm_display_string ''screen'' eds_object name
                            ('''', printed st2 @ [dump]) of
                       (shown, console) \<Rightarrow>
                         main_loop decode_message screen_flag packets
                           (st2\<lparr>printed := console @ [shown]\<rparr>)))
             else main_loop decode_message screen_flag packets st2)"

text \<open>
  \<open>filename.replace('.bin', '.csv')\<close>: every occurrence of \<open>.bin\<close>, from the left and
  without overlap, becomes \<open>.csv\<close>; a name without \<open>.bin\<close> is returned unchanged.
\<close>

fun replace_bin_csv :: "string \<Rightarrow> string" where
  "replace_bin_csv (a # b # c # d # rest) =
     (if [a, b, c, d] = ''.bin'' then ''.csv'' @ replace_bin_csv rest
      else a # replace_bin_csv (b # c # d # rest))"
| "replace_bin_csv s = s"

text \<open>
  The world \<open>main\<close> runs in.  \<open>database_ok\<close> says whether \<open>EdsLib.Database\<close> and
  \<open>CFE_MissionLib.Database\<close> return.  \<open>open_rb\<close> is \<open>open(path, 'rb')\<close>: the content of
  the file, or \<open>None\<close> when the call raises.  \<open>open_w_ok\<close> says whether
  \<open>open(path, 'w')\<close> succeeds.  When the output path is the input path itself, opening it
  for writing truncates the file that is being read; what the buffered reader returns
  from then on depends on the buffering of the runtime, so the results of its successive
  \<open>read(packet_length)\<close> calls are taken from the world as \<open>truncated_reads\<close>.
  A path names one file; links between paths are not modelled.
\<close>

record world =
  database_ok :: bool
  open_rb :: "string \<Rightarrow> byte list option"
  open_w_ok :: "string \<Rightarrow> bool"
  truncated_reads :: "byte list list"

text \<open>
  The generator \<open>read_packet\<close> on a file whose reads are given one by one: a read
  returns at most \<open>packet_length\<close> bytes of what is offered, and the first empty read
  (or the end of the offers) ends the stream.
\<close>

fun read_packet_replayed :: "byte list list \<Rightarrow> nat \<Rightarrow> byte list list" where
  "read_packet_replayed [] packet_length = []"
| "read_packet_replayed (r # rs) packet_length =
     (let packet = take packet_length r
      in if packet = [] then [] else packet # read_packet_replayed rs packet_length)"

text \<open>
  \<open>main\<close> from the initialisation of the databases on (the option loop before it only
  sets \<open>filename\<close> and \<open>screen_flag\<close>).  A \<open>RuntimeError\<close> of the databases is caught
  and ends the run with \<open>sys.exit(2)\<close>.  When \<open>open(filename, 'rb')\<close> fails Python raises
  an \<open>OSError\<close>, which the handler for \<open>RuntimeError\<close> does not catch.  The header is
  read before \<open>csv_filename\<close> is computed and opened; that \<open>open\<close> stands outside any
  \<open>try\<close>, so its failure leaves \<open>main\<close> with \<open>fin\<close> open.  The two \<open>close\<close> calls
  stand after the loop, outside any \<open>try\<close>, so they run only when the loop ends normally
  (\<open>fout\<close> is never \<open>None\<close> there).
\<close>

definition main :: "decoder \<Rightarrow> world \<Rightarrow> bool \<Rightarrow> string \<Rightarrow> outcome \<times> run_state" where
  "main decode_message world screen_flag filename =
     (let st0 = \<lparr>fin_open = False, fout_open = False, fout_written = [], printed = [],
                 labels_printed = False\<rparr>
      in if \<not> database_ok world then
           (Exited 2, st0\<lparr>printed := [''convert_tlm_file.py is not properly configured'']\<rparr>)
         else
           (case open_rb world filename of
              None \<Rightarrow> (Raised OSError, st0)
            | Some content \<Rightarrow>
                (case file_read content 4 of
                   (header, fin) \<Rightarrow>
                     let st1 = st0\<lparr>fin_open := True\<rparr>;
                         packet_length = int_from_bytes header;
                         csv_filename = replace_bin_csv filename
                     in if \<not> open_w_ok world csv_filename then (Raised OSError, st1)
                        else
                          let st2 = st1\<lparr>fout_open := True\<rparr>;
                              packets =
                                (if csv_filename = filename
                                 then read_packet_replayed (truncated_reads world) packet_length
                                 else read_packet fin packet_length)
                          in (case main_loop decode_message screen_flag packets st2 of
                                (Returned, st3) \<Rightarrow>
                                  (Returned, st3\<lparr>fin_open := False, fout_open := False\<rparr>)
                              | (Exited code, st3) \<Rightarrow> (Exited code, st3)
                              | (Raised e, st3) \<Rightarrow> (Raised e, st3)))))"

section \<open>The specification's notions\<close>

text \<open>
  The definitions of this section are written from the words of the specification, to be
  compared with the functions above.
\<close>

subsection \<open>The flattener\<close>

text \<open>
  \<open>flatten(tree, basePath)\<close>: an Array recurses into element \<open>i\<close>, for \<open>i\<close> from 0 to
  length - 1 ascending, with path \<open>basePath + "[i]"\<close>; a Container recurses into each
  (name, child) pair, in declared order, with path \<open>basePath + "." + name\<close>; a Scalar
  emits one (path, rendered value) pair; the results are appended in order.
\<close>

function flatten :: "eds_object \<Rightarrow> string \<Rightarrow> (string \<times> string) list" where
  "flatten (Scalar v) basePath = [(basePath, v)]"
| "flatten (Array elems) basePath =
     concat (map (\<lambda>i. flatten (elems ! i) (basePath @ ''['' @ str_nat i @ '']''))
                 [0..<length elems])"
| "flatten (Container members) basePath =
     concat (map (\<lambda>member. flatten (snd member) (basePath @ ''.'' @ fst member)) members)"
  by pat_completeness auto
termination
proof (relation "measure (\<lambda>(obj, path). size obj)")
  fix elems :: "eds_object list" and basePath :: string and x :: nat
  assume "x \<in> set [0..<length elems]"
  then show "((elems ! x, basePath @ ''['' @ str_nat x @ '']''), (Array elems, basePath))
             \<in> measure (\<lambda>(obj, path). size obj)"
    by (simp add: size_nth_less)
next
  fix members :: "(string \<times> eds_object) list" and basePath :: string
    and x :: "string \<times> eds_object"
  assume "x \<in> set members"
  then have "size (snd x) < Suc (size_list (size_prod (\<lambda>_. 0) size) members)"
    using size_snd_less[of "fst x" "snd x" members] by simp
  then show "((snd x, basePath @ ''.'' @ fst x), (Container members, basePath))
             \<in> measure (\<lambda>(obj, path). size obj)"
    by simp
qed simp

text \<open>
  The three output modes: \<open>labels\<close> emits the path, \<open>values\<close> the rendered value,
  \<open>screen\<close> a padded \<open>path = value\<close> line.
\<close>

definition known_mode :: "string \<Rightarrow> bool" where
  "known_mode mode \<longleftrightarrow> mode = ''screen'' \<or> mode = ''labels'' \<or> mode = ''values''"

definition render_leaf :: "string \<Rightarrow> string \<times> string \<Rightarrow> string" where
  "render_leaf mode leaf =
     (if mode = ''screen'' then ljust (fst leaf) 60 @ '' = '' @ snd leaf @ [CHR 0x0A]
      else if mode = ''labels'' then fst leaf @ '', ''
      else snd leaf @ '', '')"

text \<open>
  The structural shape of a tree, the "type" that two instances of one message share:
  the kinds of the nodes, the lengths of the arrays and the names of the members, without
  the values of the leaves.
\<close>

datatype shape =
    ScalarShape
  | ArrayShape "shape list"
  | ContainerShape "(string \<times> shape) list"

primrec shape_of :: "eds_object \<Rightarrow> shape" where
  "shape_of (Scalar v) = ScalarShape"
| "shape_of (Array elems) = ArrayShape (map shape_of elems)"
| "shape_of (Container members) = ContainerShape (map (map_prod id shape_of) members)"

subsection \<open>The hex listing and its decoding\<close>

text \<open>
  Each byte as \<open>0xHH\<close> with two upper-case digits and a space after it, and a line break
  after every \<open>bytesPerLine\<close> bytes; \<open>k\<close> is the number of bytes already rendered.
\<close>

definition upper_hex_digits :: string where
  "upper_hex_digits = ''0123456789ABCDEF''"

definition render_byte :: "byte \<Rightarrow> string" where
  "render_byte b =
     ''0x'' @ [upper_hex_digits ! (unat b div 16), upper_hex_digits ! (unat b mod 16)]"

fun hex_listing :: "nat \<Rightarrow> nat \<Rightarrow> byte list \<Rightarrow> string" where
  "hex_listing bytesPerLine k [] = []"
| "hex_listing bytesPerLine k (b # bs) =
     render_byte b @ '' '' @ (if Suc k mod bytesPerLine = 0 then [CHR 0x0A] else [])
       @ hex_listing bytesPerLine (Suc k) bs"

text \<open>
  Decoding a listing: strip every \<open>0x\<close>, strip the whitespace, and read the remaining
  characters two by two as hexadecimal digits.
\<close>

fun strip_0x :: "string \<Rightarrow> string" where
  "strip_0x (c # d # rest) =
     (if c = CHR ''0'' \<and> d = CHR ''x'' then strip_0x rest else c # strip_0x (d # rest))"
| "strip_0x s = s"

definition is_space :: "char \<Rightarrow> bool" where
  "is_space c \<longleftrightarrow> c = CHR '' '' \<or> c = CHR 0x0A \<or> c = CHR 0x09 \<or> c = CHR 0x0D"

definition strip_whitespace :: "string \<Rightarrow> string" where
  "strip_whitespace s = filter (\<lambda>c. \<not> is_space c) s"

definition hex_val :: "char \<Rightarrow> nat option" where
  "hex_val c =
     (let k = (of_char c :: nat)
      in if 48 \<le> k \<and> k \<le> 57 then Some (k - 48)
         else if 65 \<le> k \<and> k \<le> 70 then Some (k - 55)
         else if 97 \<le> k \<and> k \<le> 102 then Some (k - 87)
         else None)"

fun unhex :: "string \<Rightarrow> byte list option" where
  "unhex [] = Some []"
| "unhex [c] = None"
| "unhex (c # d # rest) =
     (case (hex_val c, hex_val d, unhex rest) of
        (Some h, Some l, Some bs) \<Rightarrow> Some (of_nat (16 * h + l) # bs)
      | _ \<Rightarrow> None)"

definition decode_listing :: "string \<Rightarrow> byte list option" where
  "decode_listing s = unhex (strip_whitespace (strip_0x s))"

subsection \<open>Example decoders and an example world\<close>

text \<open>
  The decoder of the specification's scenario, used to run \<open>main\<close> on concrete files: a
  packet of 8 bytes is a container \<open>{a: uint32, b: uint32}\<close> of type \<open>TypeName\<close>, and a
  packet of any other length does not match the type's size and is a decode error.
\<close>

definition scenario_decode :: decoder where
  "scenario_decode packet =
     (if length packet = 8 then
        Inr (0, ''TypeName'',
             Container [(''a'', Scalar (str_nat (int_from_bytes (take 4 packet)))),
                        (''b'', Scalar (str_nat (int_from_bytes (drop 4 packet))))])
      else Inl DecodeError)"

text \<open>
  A second decoder, for a message type \<open>Note\<close> with one string member: the member's
  value is the packet's two characters, printed verbatim, where the byte 10 is a line feed
  and any other byte is shown as a dot.
\<close>

definition note_decode :: decoder where
  "note_decode packet =
     (if length packet = 2 then
        Inr (0, ''Note'',
             Container [(''text'',
                         Scalar (map (\<lambda>b. if b = 10 then CHR 0x0A else CHR ''.'') packet))])
      else Inl DecodeError)"

text \<open>
  A world with one input file \<open>tlm.bin\<close> of the given content, in which the databases
  initialise and \<open>tlm.csv\<close> can be created.
\<close>

definition scenario_world :: "byte list \<Rightarrow> world" where
  "scenario_world content =
     \<lparr>database_ok = True,
      open_rb = (\<lambda>path. if path = ''tlm.bin'' then Some content else None),
      open_w_ok = (\<lambda>path. path = ''tlm.csv''),
      truncated_reads = []\<rparr>"

text \<open>
  The text of the row that a named tree contributes to the CSV file in a given mode, and
  the string written for it, which ends in a line feed.
\<close>

definition row_text :: "string \<Rightarrow> string \<times> eds_object \<Rightarrow> string" where
  "row_text mode entry = concat (map (render_leaf mode) (flatten (snd entry) (fst entry)))"

definition csv_row :: "string \<Rightarrow> string \<times> eds_object \<Rightarrow> string" where
  "csv_row mode entry = row_text mode entry @ [CHR 0x0A]"

text \<open>
  The lines of a text file: every line feed ends a line, and characters after the last
  line feed form a last line.
\<close>

fun split_lines :: "string \<Rightarrow> string \<Rightarrow> string list" where
  "split_lines cur [] = (if cur = [] then [] else [cur])"
| "split_lines cur (c # cs) =
     (if c = CHR 0x0A then cur # split_lines [] cs else split_lines (cur @ [c]) cs)"

definition file_lines :: "string \<Rightarrow> string list" where
  "file_lines s = split_lines [] s"

text \<open>No path and no rendered value of a named tree contains a line feed.\<close>

definition single_line :: "string \<times> eds_object \<Rightarrow> bool" where
  "single_line entry \<longleftrightarrow>
     list_all (\<lambda>leaf. CHR 0x0A \<notin> set (fst leaf) \<and> CHR 0x0A \<notin> set (snd leaf))
              (flatten (snd entry) (fst entry))"

subsection \<open>What a well-formed run writes\<close>

text \<open>
  The name and the tree that the decoder returns for a packet, and the strings a run is
  expected to write for a sequence of packets: the labels of the first record unless the
  header is already written, then the values of every record.
\<close>

definition decoded :: "decoder \<Rightarrow> byte list \<Rightarrow> string \<times> eds_object" where
  "decoded dec p =
     (case dec p of Inr (t, name, obj) \<Rightarrow> (name, obj) | Inl e \<Rightarrow> ('''', Scalar ''''))"

definition expected_rows :: "decoder \<Rightarrow> bool \<Rightarrow> byte list list \<Rightarrow> string list" where
  "expected_rows dec header_done packets =
     (if header_done \<or> packets = [] then []
      else [csv_row ''labels'' (decoded dec (hd packets))])
     @ map (\<lambda>p. csv_row ''values'' (decoded dec p)) packets"

text \<open>The digits that remain of a listing once \<open>0x\<close> and whitespace are stripped.\<close>

definition upper_hex_pairs :: "byte list \<Rightarrow> string" where
  "upper_hex_pairs bs =
     concat (map (\<lambda>b. [upper_hex_digits ! (unat b div 16),
                         upper_hex_digits ! (unat b mod 16)]) bs)"

text \<open>
  The packets that \<open>main\<close> streams once both files are open: those of the input after
  its header, or, when the output path is the input path, those of the truncated file.
\<close>

definition streamed_packets :: "world \<Rightarrow> string \<Rightarrow> byte list \<Rightarrow> byte list list" where
  "streamed_packets world filename content =
     (if replace_bin_csv filename = filename
      then read_packet_replayed (truncated_reads world) (int_from_bytes (take 4 content))
      else read_packet (drop 4 content) (int_from_bytes (take 4 content)))"

text \<open>A world like \<open>scenario_world\<close> in which no file can be created.\<close>

definition readonly_world :: "byte list \<Rightarrow> world" where
  "readonly_world content =
     \<lparr>database_ok = True,
      open_rb = (\<lambda>path. if path = ''tlm.bin'' then Some content else None),
      open_w_ok = (\<lambda>path. False),
      truncated_reads = []\<rparr>"


section \<open>Lemmas\<close>

lemma read_packet_zero: "read_packet f 0 = []"
  by (subst read_packet.simps) (simp add: file_read_def)

lemma read_packet_Nil: "read_packet [] n = []"
  by (subst read_packet.simps) (simp add: file_read_def)

lemma read_packet_step:
  "0 < n \<Longrightarrow> f \<noteq> [] \<Longrightarrow> read_packet f n = take n f # read_packet (drop n f) n"
  by (subst read_packet.simps) (simp add: file_read_def)

lemma concat_read_packet: "0 < n \<Longrightarrow> concat (read_packet f n) = f"
proof (induction "length f" arbitrary: f rule: less_induct)
  case less
  show ?case
  proof (cases "f = []")
    case True
    then show ?thesis by (simp add: read_packet_Nil)
  next
    case False
    then have "length (drop n f) < length f" using less.prems by simp
    then have "concat (read_packet (drop n f) n) = drop n f"
      using less.hyps less.prems by blast
    then show ?thesis
      by (simp add: read_packet_step[OF less.prems False])
  qed
qed

lemma ceil_div_small: "0 < m \<Longrightarrow> m \<le> n \<Longrightarrow> (m + n - 1) div n = (1::nat)"
proof -
  assume a: "0 < m" "m \<le> n"
  then have "n \<le> m + n - 1" "m + n - 1 < 2 * n" by simp_all
  then have "(m + n - 1) div n < 2" "0 < (m + n - 1) div n"
    using a by (simp_all add: less_mult_imp_div_less div_greater_zero_iff mult.commute)
  then show ?thesis by simp
qed

lemma ceil_div_step:
  "0 < n \<Longrightarrow> n < m \<Longrightarrow> (m + n - 1) div n = Suc ((m - n + n - 1) div (n::nat))"
proof -
  assume a: "0 < n" "n < m"
  then have e: "m + n - 1 = (m - 1) + n" "m - n + n - 1 = m - 1" by simp_all
  have "(m - 1 + n) div n = Suc ((m - 1) div n)"
    using a(1) div_add_self2[of n "m - 1"] by simp
  then show ?thesis by (simp only: e)
qed

lemma length_read_packet:
  "0 < n \<Longrightarrow> length (read_packet f n) = (length f + n - 1) div n"
proof (induction "length f" arbitrary: f rule: less_induct)
  case less
  show ?case
  proof (cases "f = []")
    case True
    then show ?thesis using less.prems by (simp add: read_packet_Nil)
  next
    case False
    note step = read_packet_step[OF less.prems False]
    show ?thesis
    proof (cases "length f \<le> n")
      case True
      then have "drop n f = []" by simp
      moreover have "(length f + n - 1) div n = 1"
        using True False ceil_div_small[of "length f" n] by simp
      ultimately show ?thesis by (simp add: step read_packet_Nil)
    next
      case gt: False
      have "length (drop n f) < length f" using False less.prems by simp
      then have "length (read_packet (drop n f) n) = (length (drop n f) + n - 1) div n"
        using less.hyps less.prems by blast
      moreover have "(length f + n - 1) div n = Suc ((length f - n + n - 1) div n)"
        using gt ceil_div_step[of n "length f"] less.prems by simp
      ultimately show ?thesis by (simp add: step)
    qed
  qed
qed

lemma nth_read_packet:
  "0 < n \<Longrightarrow> i < length (read_packet f n) \<Longrightarrow>
     read_packet f n ! i = take n (drop (i * n) f)"
proof (induction i arbitrary: f)
  case 0
  then have "f \<noteq> []" by (auto simp: read_packet_Nil)
  then show ?case by (simp add: read_packet_step[OF 0(1)])
next
  case (Suc i)
  then have ne: "f \<noteq> []" by (auto simp: read_packet_Nil)
  note step = read_packet_step[OF Suc.prems(1) ne]
  from Suc.prems(2) have "i < length (read_packet (drop n f) n)" by (simp add: step)
  then have "read_packet (drop n f) n ! i = take n (drop (i * n) (drop n f))"
    using Suc.IH Suc.prems(1) by blast
  then show ?case by (simp add: step add.commute)
qed

lemma read_packet_nonempty:
  "p \<in> set (read_packet f n) \<Longrightarrow> p \<noteq> []"
proof (induction "length f" arbitrary: f p rule: less_induct)
  case less
  show ?case
  proof (cases "0 < n \<and> f \<noteq> []")
    case True
    then have step: "read_packet f n = take n f # read_packet (drop n f) n"
      by (simp add: read_packet_step)
    have "length (drop n f) < length f" using True by simp
    then have "\<And>q. q \<in> set (read_packet (drop n f) n) \<Longrightarrow> q \<noteq> []"
      using less.hyps by blast
    moreover have "take n f \<noteq> []" using True by simp
    ultimately show ?thesis using less.prems unfolding step by auto
  next
    case False
    then have "read_packet f n = []" by (auto simp: read_packet_Nil read_packet_zero)
    with less.prems show ?thesis by simp
  qed
qed

lemma read_packet_append:
  "0 < n \<Longrightarrow> length a = k * n \<Longrightarrow> read_packet (a @ b) n = read_packet a n @ read_packet b n"
proof (induction k arbitrary: a)
  case 0
  then show ?case by (simp add: read_packet_Nil)
next
  case (Suc k)
  then have ne: "a \<noteq> []" "a @ b \<noteq> []" by auto
  have la: "n \<le> length a" using Suc.prems by simp
  have "length (drop n a) = k * n" using Suc.prems by simp
  then have "read_packet (drop n a @ b) n = read_packet (drop n a) n @ read_packet b n"
    using Suc.IH Suc.prems(1) by blast
  then show ?case using la
    by (simp add: read_packet_step[OF Suc.prems(1) ne(1)] read_packet_step[OF Suc.prems(1) ne(2)])
qed

lemma foldl_concat_map:
  "foldl h st (concat (map F l)) = foldl (\<lambda>st x. foldl h st (F x)) st l"
  by (induction l arbitrary: st) simp_all

lemma tlm_leaves:
  "tlm_display_string flag obj base st =
     foldl (\<lambda>st pv. tlm_display_string flag (Scalar (snd pv)) (fst pv) st) st (flatten obj base)"
proof (induction flag obj base st rule: tlm_display_string.induct)
  case (1 output_flag elems base_name message)
  show ?case
    unfolding tlm_display_string.simps(1) flatten.simps(2) foldl_concat_map
    by (rule foldl_cong[OF refl refl]) (use 1 in blast)
next
  case (2 output_flag items base_name message)
  show ?case
    unfolding tlm_display_string.simps(2) flatten.simps(3) foldl_concat_map
    by (rule foldl_cong[OF refl refl]) (use 2 in blast)
next
  case (3 output_flag base_object base_name message)
  show ?case by (simp del: tlm_display_string.simps)
qed

lemma foldl_render:
  "known_mode flag \<Longrightarrow>
   foldl (\<lambda>st pv. tlm_display_string flag (Scalar (snd pv)) (fst pv) st) (msg, out) l =
     (msg @ concat (map (render_leaf flag) l), out)"
  by (induction l arbitrary: msg) (auto simp: known_mode_def render_leaf_def)

lemma tlm_known_mode:
  "known_mode flag \<Longrightarrow>
   tlm_display_string flag obj base (msg, out) =
     (msg @ concat (map (render_leaf flag) (flatten obj base)), out)"
  by (simp only: tlm_leaves[of flag obj base] foldl_render)

lemma flatten_Array_paths:
  "map fst (flatten (Array elems) base) =
     concat (map (\<lambda>i. map fst (flatten (elems ! i) (base @ ''['' @ str_nat i @ '']'')))
                 [0..<length elems])"
  by (simp add: map_concat comp_def)

lemma flatten_Container_paths:
  "map fst (flatten (Container members) base) =
     concat (map (\<lambda>member. map fst (flatten (snd member) (base @ ''.'' @ fst member))) members)"
  by (simp add: map_concat comp_def)

lemma flatten_paths_shape:
  "shape_of a = shape_of b \<Longrightarrow> map fst (flatten a base) = map fst (flatten b base)"
proof (induction a base arbitrary: b rule: flatten.induct)
  case (1 v basePath)
  then show ?case by (cases b) simp_all
next
  case (2 elems basePath)
  from 2(2) obtain elems' where b: "b = Array elems'" and m: "map shape_of elems = map shape_of elems'"
    by (cases b) simp_all
  from m have len: "length elems = length elems'" by (rule map_eq_imp_length_eq)
  have "\<And>i. i < length elems \<Longrightarrow> shape_of (elems ! i) = shape_of (elems' ! i)"
    using m len by (metis nth_map)
  then have "\<And>i. i \<in> set [0..<length elems] \<Longrightarrow>
      map fst (flatten (elems ! i) (basePath @ ''['' @ str_nat i @ '']'')) =
      map fst (flatten (elems' ! i) (basePath @ ''['' @ str_nat i @ '']''))"
    using 2(1) by simp
  then have eq: "map (\<lambda>i. map fst (flatten (elems ! i) (basePath @ ''['' @ str_nat i @ '']'')))
                 [0..<length elems] =
             map (\<lambda>i. map fst (flatten (elems' ! i) (basePath @ ''['' @ str_nat i @ '']'')))
                 [0..<length elems]"
    by - (rule map_cong[OF refl], blast)
  show ?case unfolding b flatten_Array_paths len[symmetric] eq ..
next
  case (3 members basePath)
  from 3(2) obtain members' where b: "b = Container members'"
    and m: "map (map_prod id shape_of) members = map (map_prod id shape_of) members'"
    by (cases b) simp_all
  from m have "list_all2 (\<lambda>x y. fst x = fst y \<and> shape_of (snd x) = shape_of (snd y)) members members'"
    by (induction members arbitrary: members') (auto simp: map_prod_def split: prod.splits)
  then have "concat (map (\<lambda>member. map fst (flatten (snd member) (basePath @ ''.'' @ fst member))) members)
     = concat (map (\<lambda>member. map fst (flatten (snd member) (basePath @ ''.'' @ fst member))) members')"
    using 3(1)
  proof (induction members members' rule: list_all2_induct)
    case Nil
    then show ?case by simp
  next
    case (Cons x xs y ys)
    have "map fst (flatten (snd x) (basePath @ ''.'' @ fst x)) =
          map fst (flatten (snd y) (basePath @ ''.'' @ fst y))"
      using Cons.hyps(1) Cons.prems[of x "snd y"] by simp
    moreover have
      "concat (map (\<lambda>member. map fst (flatten (snd member) (basePath @ ''.'' @ fst member))) xs)
     = concat (map (\<lambda>member. map fst (flatten (snd member) (basePath @ ''.'' @ fst member))) ys)"
      using Cons.IH Cons.prems by simp
    ultimately show ?case by simp
  qed
  then show ?case unfolding b flatten_Container_paths .
qed

lemma length_hex_digits: "length hex_digits = 16" "length upper_hex_digits = 16"
  by (simp_all add: hex_digits_def upper_hex_digits_def)

lemma map_upper_hex_digits: "map upper hex_digits = upper_hex_digits"
  by (simp add: upper_def hex_digits_def upper_hex_digits_def)

lemma upper_hex_digit: "k < 16 \<Longrightarrow> upper (hex_digits ! k) = upper_hex_digits ! k"
  using nth_map[of k hex_digits upper] by (simp add: length_hex_digits map_upper_hex_digits)

lemma map_hex_val_upper: "map hex_val upper_hex_digits = map Some [0..<16]"
  by (simp add: hex_val_def upper_hex_digits_def upt_rec)

lemma hex_val_upper: "k < 16 \<Longrightarrow> hex_val (upper_hex_digits ! k) = Some k"
  using nth_map[of k upper_hex_digits hex_val] nth_map[of k "[0..<16]" Some]
  by (simp add: length_hex_digits map_hex_val_upper del: upt_Suc)

lemma upper_hex_digits_plain:
  "\<forall>c \<in> set upper_hex_digits. c \<noteq> CHR ''x'' \<and> \<not> is_space c"
  by (simp add: upper_hex_digits_def is_space_def)

lemma upper_hex_plain:
  "k < 16 \<Longrightarrow> upper_hex_digits ! k \<noteq> CHR ''x'' \<and> \<not> is_space (upper_hex_digits ! k)"
  using upper_hex_digits_plain nth_mem[of k upper_hex_digits]
  by (simp add: length_hex_digits)

lemma byte_nibbles: "of_nat (16 * (unat b div 16) + unat b mod 16) = (b::byte)"
  by simp

lemma nibble_bounds: "unat (b::byte) div 16 < 16" "unat b mod 16 < 16"
proof -
  have "unat b < 256" using unsigned_less[of b] by simp
  then show "unat b div 16 < 16" by simp
  show "unat b mod 16 < 16" by simp
qed

lemma hex_string_loop_bytes:
  "0 < bpl \<Longrightarrow>
   hex_string_loop (bytes_hex bs) bpl acc k = Inr (acc @ hex_listing bpl k bs)"
proof (induction bs arbitrary: acc k)
  case Nil
  then show ?case by (simp add: bytes_hex_def)
next
  case (Cons b bs)
  have split: "bytes_hex (b # bs) =
      hex_digits ! (unat b div 16) # hex_digits ! (unat b mod 16) # bytes_hex bs"
    by (simp add: bytes_hex_def)
  show ?case
    unfolding split hex_string_loop.simps Let_def
    using Cons.prems
    by (simp add: Cons.IH[OF Cons.prems] upper_hex_digit nibble_bounds render_byte_def)
qed

lemma strip_0x_keep1: "c \<noteq> CHR ''0'' \<Longrightarrow> strip_0x (c # s) = c # strip_0x s"
  by (cases s) simp_all

lemma strip_0x_keep2: "d \<noteq> CHR ''x'' \<Longrightarrow> strip_0x (c # d # s) = c # strip_0x (d # s)"
  by simp

lemma strip_0x_drop: "strip_0x (CHR ''0'' # CHR ''x'' # s) = strip_0x s"
  by simp

lemma strip_hex_listing:
  "strip_whitespace (strip_0x (hex_listing bpl k bs)) = upper_hex_pairs bs"
proof (induction bs arbitrary: k)
  case Nil
  then show ?case by (simp add: strip_whitespace_def upper_hex_pairs_def)
next
  case (Cons b bs)
  define h where "h = upper_hex_digits ! (unat b div 16)"
  define l where "l = upper_hex_digits ! (unat b mod 16)"
  define nl where "nl = (if Suc k mod bpl = 0 then [CHR 0x0A] else [])"
  define rest where "rest = hex_listing bpl (Suc k) bs"
  have hl: "l \<noteq> CHR ''x''" "\<not> is_space h" "\<not> is_space l"
    using upper_hex_plain nibble_bounds by (simp_all add: h_def l_def)
  have shape: "hex_listing bpl k (b # bs) = CHR ''0'' # CHR ''x'' # h # l # CHR '' '' # nl @ rest"
    by (simp add: render_byte_def h_def l_def nl_def rest_def)
  have nl: "strip_0x (nl @ rest) = nl @ strip_0x rest"
    by (simp add: nl_def strip_0x_keep1)
  have sp: "CHR '' '' \<noteq> CHR ''x''" "CHR '' '' \<noteq> CHR ''0''" by simp_all
  have "strip_0x (hex_listing bpl k (b # bs)) = h # l # CHR '' '' # nl @ strip_0x rest"
    unfolding shape strip_0x_drop
    by (simp only: strip_0x_keep2[OF hl(1)] strip_0x_keep2[OF sp(1)] strip_0x_keep1[OF sp(2)] nl)
  then have "strip_whitespace (strip_0x (hex_listing bpl k (b # bs))) =
      h # l # strip_whitespace (strip_0x rest)"
    using hl by (simp add: strip_whitespace_def nl_def is_space_def)
  then show ?case
    by (simp add: rest_def Cons.IH upper_hex_pairs_def h_def l_def)
qed

lemma unhex_upper_hex_pairs: "unhex (upper_hex_pairs bs) = Some bs"
proof (induction bs)
  case Nil
  then show ?case by (simp add: upper_hex_pairs_def)
next
  case (Cons b bs)
  have "upper_hex_pairs (b # bs) =
      upper_hex_digits ! (unat b div 16) # upper_hex_digits ! (unat b mod 16) # upper_hex_pairs bs"
    by (simp add: upper_hex_pairs_def)
  then show ?case
    using Cons.IH byte_nibbles[of b]
    by (simp add: hex_val_upper nibble_bounds)
qed

lemma decode_hex_listing: "decode_listing (hex_listing bpl k bs) = Some bs"
  by (simp add: decode_listing_def strip_hex_listing unhex_upper_hex_pairs)

lemma tlm_row:
  "known_mode flag \<Longrightarrow>
   tlm_display_string flag obj name ('''', out) =
     (concat (map (render_leaf flag) (flatten obj name)), out)"
  using tlm_known_mode[of flag obj name "''''" out] by simp

lemma write_row_known:
  "known_mode flag \<Longrightarrow>
   write_row flag obj name st =
     st\<lparr>fout_written := fout_written st @ [csv_row flag (name, obj)]\<rparr>"
  by (simp add: write_row_def tlm_row csv_row_def row_text_def)

lemma hex_string_16: "hex_string (bytes_hex p) 16 = Inr (hex_listing 16 0 p)"
  by (simp add: hex_string_def hex_string_loop_bytes)

lemma known_modes [simp]: "known_mode ''labels''" "known_mode ''values''" "known_mode ''screen''"
  by (simp_all add: known_mode_def)

lemma main_loop_ok:
  "\<forall>p \<in> set packets. \<exists>r. dec p = Inr r \<Longrightarrow>
   \<exists>out. main_loop dec sf packets st =
     (Returned, st\<lparr>fout_written := fout_written st @ expected_rows dec (labels_printed st) packets,
                    printed := out,
                    labels_printed := labels_printed st \<or> packets \<noteq> []\<rparr>)"
proof (induction packets arbitrary: st)
  case Nil
  show ?case by (rule exI[of _ "printed st"]) (simp add: expected_rows_def)
next
  case (Cons p ps)
  from Cons.prems obtain t name obj where d: "dec p = Inr (t, name, obj)"
    by (metis list.set_intros(1) prod_cases3)
  have rest: "\<forall>p \<in> set ps. \<exists>r. dec p = Inr r" using Cons.prems by simp
  define st1 where "st1 = (if \<not> labels_printed st
                     then (write_row ''labels'' obj name st)\<lparr>labels_printed := True\<rparr>
                     else st)"
  define st2 where "st2 = write_row ''values'' obj name st1"
  have st2: "st2 = st\<lparr>fout_written := fout_written st @ expected_rows dec (labels_printed st) [p],
                       labels_printed := True\<rparr>"
    by (simp add: st2_def st1_def write_row_known expected_rows_def decoded_def d)
  show ?case
  proof (cases sf)
    case False
    then have step: "main_loop dec sf (p # ps) st = main_loop dec sf ps st2"
      by (simp add: d st2_def st1_def Let_def)
    from Cons.IH[OF rest, of st2] obtain out where
      "main_loop dec sf ps st2 =
        (Returned, st2\<lparr>fout_written := fout_written st2 @ expected_rows dec (labels_printed st2) ps,
                    printed := out, labels_printed := labels_printed st2 \<or> ps \<noteq> []\<rparr>)"
      by blast
    then show ?thesis unfolding step
      by (intro exI[of _ out]) (simp add: st2 expected_rows_def)
  next
    case True
    obtain shown console where scr:
      "tlm_display_string ''screen'' obj name ('''', printed st2 @ [hex_listing 16 0 p]) = (shown, console)"
      by (cases "tlm_display_string ''screen'' obj name ('''', printed st2 @ [hex_listing 16 0 p])")
    define st3 where "st3 = st2\<lparr>printed := console @ [shown]\<rparr>"
    have step: "main_loop dec sf (p # ps) st = main_loop dec sf ps st3"
      using True by (simp add: d st2_def[symmetric] st1_def[symmetric] Let_def hex_string_16 scr st3_def)
    from Cons.IH[OF rest, of st3] obtain out where
      "main_loop dec sf ps st3 =
        (Returned, st3\<lparr>fout_written := fout_written st3 @ expected_rows dec (labels_printed st3) ps,
                    printed := out, labels_printed := labels_printed st3 \<or> ps \<noteq> []\<rparr>)"
      by blast
    then show ?thesis unfolding step
      by (intro exI[of _ out]) (simp add: st3_def st2 expected_rows_def)
  qed
qed

lemma write_row_handles:
  "fin_open (write_row flag obj name s) = fin_open s"
  "fout_open (write_row flag obj name s) = fout_open s"
  by (simp_all add: write_row_def split: prod.splits)

lemma main_loop_step:
  assumes "dec p = Inr (t, name, obj)"
  shows "\<exists>st'. main_loop dec sf (p # ps) st = main_loop dec sf ps st'
             \<and> fin_open st' = fin_open st \<and> fout_open st' = fout_open st"
proof -
  define st1 where "st1 = (if \<not> labels_printed st
                     then (write_row ''labels'' obj name st)\<lparr>labels_printed := True\<rparr>
                     else st)"
  define st2 where "st2 = write_row ''values'' obj name st1"
  have h: "fin_open st2 = fin_open st" "fout_open st2 = fout_open st"
    by (simp_all add: st2_def st1_def write_row_handles)
  show ?thesis
  proof (cases sf)
    case False
    then have "main_loop dec sf (p # ps) st = main_loop dec sf ps st2"
      by (simp add: assms st2_def st1_def Let_def)
    with h show ?thesis by blast
  next
    case True
    obtain shown console where scr:
      "tlm_display_string ''screen'' obj name ('''', printed st2 @ [hex_listing 16 0 p])
         = (shown, console)"
      by (cases "tlm_display_string ''screen'' obj name
                   ('''', printed st2 @ [hex_listing 16 0 p])")
    define st3 where "st3 = st2\<lparr>printed := console @ [shown]\<rparr>"
    have "main_loop dec sf (p # ps) st = main_loop dec sf ps st3"
      using True
      by (simp add: assms st2_def[symmetric] st1_def[symmetric] Let_def hex_string_16 scr st3_def)
    moreover have "fin_open st3 = fin_open st" "fout_open st3 = fout_open st"
      by (simp_all add: st3_def h)
    ultimately show ?thesis by blast
  qed
qed

lemma main_loop_handles:
  "fin_open (snd (main_loop dec sf packets st)) = fin_open st \<and>
   fout_open (snd (main_loop dec sf packets st)) = fout_open st"
proof (induction packets arbitrary: st)
  case Nil
  show ?case by simp
next
  case (Cons p ps)
  show ?case
  proof (cases "dec p")
    case (Inl e)
    then show ?thesis by simp
  next
    case (Inr r)
    obtain t name obj where "r = (t, name, obj)" by (cases r)
    with Inr main_loop_step[of dec p t name obj sf ps st] obtain st' where
      "main_loop dec sf (p # ps) st = main_loop dec sf ps st'"
      "fin_open st' = fin_open st" "fout_open st' = fout_open st"
      by blast
    then show ?thesis using Cons.IH[of st'] by simp
  qed
qed

lemma main_loop_raises:
  "\<exists>p \<in> set packets. \<exists>e. dec p = Inl e \<Longrightarrow> \<exists>e. fst (main_loop dec sf packets st) = Raised e"
proof (induction packets arbitrary: st)
  case Nil
  then show ?case by simp
next
  case (Cons p ps)
  show ?case
  proof (cases "dec p")
    case (Inl e)
    then show ?thesis by simp
  next
    case (Inr r)
    with Cons.prems have "\<exists>p \<in> set ps. \<exists>e. dec p = Inl e" by auto
    then have ih: "\<And>s. \<exists>e. fst (main_loop dec sf ps s) = Raised e" using Cons.IH by blast
    obtain t name obj where "r = (t, name, obj)" by (cases r)
    with Inr main_loop_step[of dec p t name obj sf ps st] obtain st' where
      "main_loop dec sf (p # ps) st = main_loop dec sf ps st'"
      by blast
    then show ?thesis using ih[of st'] by simp
  qed
qed

lemma ceil_div_rem:
  assumes "0 < n" "m mod n \<noteq> 0"
  shows "(m + n - 1) div n = Suc (m div (n::nat))"
proof -
  define q r where "q = m div n" and "r = m mod n"
  have r: "0 < r" "r < n" using assms by (simp_all add: r_def)
  have m: "m = n * q + r" unfolding q_def r_def by (rule mult_div_mod_eq[symmetric])
  have "n * Suc q \<le> m + n - 1"
    unfolding m using r by simp
  moreover have "m + n - 1 < n * Suc (Suc q)"
    unfolding m using r by simp
  ultimately have "(m + n - 1) div n = Suc q" by (rule div_nat_eqI)
  then show ?thesis by (simp only: q_def)
qed

lemma ceil_div_covers: "0 < n \<Longrightarrow> m \<le> ((m + n - 1) div n) * (n::nat)"
proof -
  assume n: "0 < n"
  define a where "a = m + n - 1"
  have "a mod n < n" using n by simp
  moreover have "a div n * n + a mod n = a" by (rule div_mult_mod_eq)
  moreover have "m + n = Suc a" using n by (simp add: a_def)
  ultimately have "m \<le> a div n * n" by linarith
  then show ?thesis by (simp only: a_def)
qed

lemma read_packet_eval:
  "read_packet f n = (if take n f = [] then [] else take n f # read_packet (drop n f) n)"
  by (subst read_packet.simps) (simp add: file_read_def)

lemma render_labels: "concat (map (render_leaf ''labels'') l) = concat (map (\<lambda>p. p @ '', '') (map fst l))"
  by (induction l) (simp_all add: render_leaf_def)

lemma foldl_unknown:
  "\<not> known_mode flag \<Longrightarrow>
   foldl (\<lambda>st leaf. tlm_display_string flag (Scalar (snd leaf)) (fst leaf) st) (msg, out) l =
     (if l = [] then msg else '''',
      out @ replicate (length l) ''Something went wrong in tlm_display_string'')"
proof (induction l arbitrary: msg out)
  case Nil
  show ?case by simp
next
  case (Cons leaf l)
  have "tlm_display_string flag (Scalar (snd leaf)) (fst leaf) (msg, out) =
          ('''', out @ [''Something went wrong in tlm_display_string''])"
    using Cons.prems by (simp add: known_mode_def)
  then show ?case
    using Cons.IH[OF Cons.prems, of "''''" "out @ [''Something went wrong in tlm_display_string'']"]
    by (simp add: replicate_app_Cons_same del: tlm_display_string.simps)
qed

lemma read_packet_replayed_zero: "read_packet_replayed reads 0 = []"
  by (cases reads) simp_all

lemma streamed_packets_zero:
  "int_from_bytes (take 4 content) = 0 \<Longrightarrow> streamed_packets w filename content = []"
  by (simp add: streamed_packets_def read_packet_zero read_packet_replayed_zero)

lemma streamed_packets_distinct:
  "replace_bin_csv filename \<noteq> filename \<Longrightarrow>
   streamed_packets w filename content =
     read_packet (drop 4 content) (int_from_bytes (take 4 content))"
  by (simp add: streamed_packets_def)

lemma main_no_database:
  "\<not> database_ok w \<Longrightarrow>
   main dec w sf filename =
     (Exited 2, \<lparr>fin_open = False, fout_open = False, fout_written = [],
                 printed = [''convert_tlm_file.py is not properly configured''],
                 labels_printed = False\<rparr>)"
  by (simp add: main_def)

lemma main_no_source:
  "database_ok w \<Longrightarrow> open_rb w filename = None \<Longrightarrow>
   main dec w sf filename =
     (Raised OSError, \<lparr>fin_open = False, fout_open = False, fout_written = [], printed = [],
                       labels_printed = False\<rparr>)"
  by (simp add: main_def)

lemma main_no_destination:
  "database_ok w \<Longrightarrow> open_rb w filename = Some content \<Longrightarrow>
   \<not> open_w_ok w (replace_bin_csv filename) \<Longrightarrow>
   main dec w sf filename =
     (Raised OSError, \<lparr>fin_open = True, fout_open = False, fout_written = [], printed = [],
                       labels_printed = False\<rparr>)"
  by (simp add: main_def file_read_def)

lemma main_streaming:
  "database_ok w \<Longrightarrow> open_rb w filename = Some content \<Longrightarrow>
   open_w_ok w (replace_bin_csv filename) \<Longrightarrow>
   main dec w sf filename =
     (case main_loop dec sf (streamed_packets w filename content)
             \<lparr>fin_open = True, fout_open = True, fout_written = [], printed = [],
              labels_printed = False\<rparr> of
        (Returned, st3) \<Rightarrow> (Returned, st3\<lparr>fin_open := False, fout_open := False\<rparr>)
      | (Exited code, st3) \<Rightarrow> (Exited code, st3)
      | (Raised e, st3) \<Rightarrow> (Raised e, st3))"
  by (simp add: main_def file_read_def Let_def streamed_packets_def)

lemma main_all_decoded:
  assumes "database_ok w" "open_rb w filename = Some content"
      and "open_w_ok w (replace_bin_csv filename)"
      and "\<forall>p \<in> set (streamed_packets w filename content). \<exists>r. dec p = Inr r"
  shows "\<exists>out. main dec w sf filename =
      (Returned, \<lparr>fin_open = False, fout_open = False,
                  fout_written = expected_rows dec False (streamed_packets w filename content),
                  printed = out,
                  labels_printed = streamed_packets w filename content \<noteq> []\<rparr>)"
proof -
  let ?st2 = "\<lparr>fin_open = True, fout_open = True, fout_written = [], printed = [],
               labels_printed = False\<rparr>"
  let ?packets = "streamed_packets w filename content"
  from main_loop_ok[OF assms(4), of sf ?st2] obtain out where
    "main_loop dec sf ?packets ?st2 =
       (Returned, ?st2\<lparr>fout_written := fout_written ?st2 @ expected_rows dec (labels_printed ?st2) ?packets,
                     printed := out, labels_printed := labels_printed ?st2 \<or> ?packets \<noteq> []\<rparr>)"
    by blast
  then have "main dec w sf filename =
      (Returned, \<lparr>fin_open = False, fout_open = False,
                  fout_written = expected_rows dec False ?packets,
                  printed = out, labels_printed = ?packets \<noteq> []\<rparr>)"
    unfolding main_streaming[OF assms(1-3)] by simp
  then show ?thesis by blast
qed

lemma main_decode_raises:
  assumes "database_ok w" "open_rb w filename = Some content"
      and "open_w_ok w (replace_bin_csv filename)"
      and "\<exists>p \<in> set (streamed_packets w filename content). \<exists>e. dec p = Inl e"
  shows "(\<exists>e. fst (main dec w sf filename) = Raised e)
       \<and> fin_open (snd (main dec w sf filename))
       \<and> fout_open (snd (main dec w sf filename))"
proof -
  let ?st2 = "\<lparr>fin_open = True, fout_open = True, fout_written = [], printed = [],
               labels_printed = False\<rparr>"
  let ?r = "main_loop dec sf (streamed_packets w filename content) ?st2"
  from assms(4) main_loop_raises[of _ dec sf ?st2]
  obtain e where e: "fst ?r = Raised e" by blast
  have h: "fin_open (snd ?r)" "fout_open (snd ?r)"
    using main_loop_handles[of dec sf _ ?st2] by simp_all
  have m: "main dec w sf filename = (Raised e, snd ?r)"
    unfolding main_streaming[OF assms(1-3)] using e by (cases ?r) simp
  show ?thesis using m h by simp
qed

lemma split_lines_row:
  "CHR 0x0A \<notin> set s \<Longrightarrow> split_lines cur (s @ CHR 0x0A # rest) = (cur @ s) # split_lines [] rest"
  by (induction s arbitrary: cur) auto

lemma file_lines_rows:
  "\<forall>t \<in> set texts. CHR 0x0A \<notin> set t \<Longrightarrow>
   file_lines (concat (map (\<lambda>t. t @ [CHR 0x0A]) texts)) = texts"
proof (induction texts)
  case Nil
  show ?case by (simp add: file_lines_def)
next
  case (Cons t texts)
  then have "CHR 0x0A \<notin> set t" by simp
  from split_lines_row[OF this, of "[]" "concat (map (\<lambda>t. t @ [CHR 0x0A]) texts)"]
  show ?case using Cons by (simp add: file_lines_def)
qed

lemma row_text_single_line:
  assumes "single_line entry" "mode = ''labels'' \<or> mode = ''values''"
  shows "CHR 0x0A \<notin> set (row_text mode entry)"
  using assms
  by (auto simp: single_line_def row_text_def render_leaf_def list_all_iff)

lemma expected_rows_texts:
  "expected_rows dec False packets =
     map (\<lambda>t. t @ [CHR 0x0A])
       (if packets = [] then []
        else row_text ''labels'' (decoded dec (hd packets))
             # map (\<lambda>p. row_text ''values'' (decoded dec p)) packets)"
  by (simp add: expected_rows_def csv_row_def comp_def)

lemma tlm_bin_csv: "replace_bin_csv ''tlm.bin'' = ''tlm.csv''" "''tlm.csv'' \<noteq> ''tlm.bin''"
  by simp_all

lemma scenario_world_files:
  "database_ok (scenario_world content)"
  "open_rb (scenario_world content) ''tlm.bin'' = Some content"
  "open_w_ok (scenario_world content) ''tlm.csv''"
  by (simp_all add: scenario_world_def)

lemma readonly_world_files:
  "database_ok (readonly_world content)"
  "open_rb (readonly_world content) ''tlm.bin'' = Some content"
  "\<not> open_w_ok (readonly_world content) path"
  by (simp_all add: readonly_world_def)

lemma scenario_streamed:
  "streamed_packets (scenario_world content) ''tlm.bin'' content =
     read_packet (drop 4 content) (int_from_bytes (take 4 content))"
  by (simp add: streamed_packets_def)

lemma scenario_run:
  "main dec (scenario_world content) sf ''tlm.bin'' =
     (case main_loop dec sf (read_packet (drop 4 content) (int_from_bytes (take 4 content)))
             \<lparr>fin_open = True, fout_open = True, fout_written = [], printed = [],
              labels_printed = False\<rparr> of
        (Returned, st3) \<Rightarrow> (Returned, st3\<lparr>fin_open := False, fout_open := False\<rparr>)
      | (Exited code, st3) \<Rightarrow> (Exited code, st3)
      | (Raised e, st3) \<Rightarrow> (Raised e, st3))"
  using main_streaming[of "scenario_world content" "''tlm.bin''" content dec sf]
  by (simp only: scenario_world_files tlm_bin_csv scenario_streamed)

lemma scenario_packets:
  "read_packet (drop 4 [0, 0, 0, 8, 0, 0, 0, 1, 0, 0, 0, 2, 0, 0, 0, 3, 0, 0, 0, 4])
               (int_from_bytes (take 4 [0, 0, 0, 8, 0, 0, 0, 1, 0, 0, 0, 2, 0, 0, 0, 3, 0, 0, 0, 4]))
     = [[0, 0, 0, 1, 0, 0, 0, 2], [0, 0, 0, 3, 0, 0, 0, 4]]"
  by (simp add: int_from_bytes_def read_packet_eval)

lemma note_packets:
  "read_packet (drop 4 [0, 0, 0, 2, 72, 10]) (int_from_bytes (take 4 [0, 0, 0, 2, 72, 10]))
     = [[72, 10]]"
  by (simp add: int_from_bytes_def read_packet_eval)

section \<open>The claims\<close>

text \<open>
  Claim C9.  For every source and every positive \<open>packet_length\<close>, \<open>read_packet\<close> is a
  finite, single-pass sequence of consecutive reads: it yields
  \<open>\<lceil>length f / packet_length\<rceil>\<close> packets, the \<open>i\<close>-th of them is what a read of
  \<open>packet_length\<close> bytes returns at offset \<open>i * packet_length\<close> and is not empty, and the
  read that follows the last yielded packet returns zero bytes: the sequence ends exactly
  at the first empty read.  Finiteness is the totality of \<open>read_packet\<close>, whose
  termination is proved at its definition.
\<close>

theorem read_packet_stream:
  assumes "0 < packet_length"
  shows "length (read_packet f packet_length) = (length f + packet_length - 1) div packet_length
       \<and> (\<forall>i < length (read_packet f packet_length).
             read_packet f packet_length ! i = fst (file_read (drop (i * packet_length) f) packet_length)
           \<and> read_packet f packet_length ! i \<noteq> [])
       \<and> fst (file_read (drop (length (read_packet f packet_length) * packet_length) f)
                 packet_length) = []"
proof (intro conjI allI impI)
  show "length (read_packet f packet_length) = (length f + packet_length - 1) div packet_length"
    using assms by (rule length_read_packet)
next
  fix i assume "i < length (read_packet f packet_length)"
  then show "read_packet f packet_length ! i = fst (file_read (drop (i * packet_length) f) packet_length)"
    using assms by (simp add: nth_read_packet file_read_def)
next
  fix i assume "i < length (read_packet f packet_length)"
  then show "read_packet f packet_length ! i \<noteq> []"
    using read_packet_nonempty nth_mem by blast
next
  have "length f \<le> length (read_packet f packet_length) * packet_length"
    unfolding length_read_packet[OF assms] using assms by (rule ceil_div_covers)
  then show "fst (file_read (drop (length (read_packet f packet_length) * packet_length) f)
                    packet_length) = []"
    by (simp add: file_read_def)
qed

text \<open>The statement of C9 on five bytes read two at a time.\<close>

theorem read_packet_stream_witness:
  "(0::nat) < 2
   \<and> length (read_packet [1, 2, 3, 4, 5] 2) = 3
   \<and> read_packet [1, 2, 3, 4, 5] 2 ! 2 = [5]
   \<and> fst (file_read (drop (3 * 2) [1, 2, 3, 4, 5]) 2) = []"
proof -
  have pos: "(0::nat) < 2" by simp
  note T = read_packet_stream[OF pos, of "[1, 2, 3, 4, 5]"]
  have a: "length (read_packet [1, 2, 3, 4, 5 :: byte] 2) = 3"
    using conjunct1[OF T] by simp
  have "read_packet [1, 2, 3, 4, 5 :: byte] 2 ! 2 = fst (file_read (drop (2 * 2) [1, 2, 3, 4, 5]) 2)"
    using conjunct1[OF conjunct2[OF T], rule_format, of 2] a by simp
  then have b: "read_packet [1, 2, 3, 4, 5 :: byte] 2 ! 2 = [5]"
    by (simp add: file_read_def)
  have c: "fst (file_read (drop (3 * 2) [1, 2, 3, 4, 5 :: byte]) 2) = []"
    using conjunct2[OF conjunct2[OF T]] unfolding a .
  from pos a b c show ?thesis by blast
qed

text \<open>
  Claim C10, amended.  For every positive \<open>packet_length\<close>, the concatenation of the
  yielded packets is exactly the content after the read position; and when the length of
  that content is not a multiple of \<open>packet_length\<close>, the last yielded packet is the
  final short chunk, not empty and shorter than \<open>packet_length\<close>: it is neither dropped
  nor an error.  (With \<open>packet_length = 0\<close> nothing is yielded; see the counterexample.)
\<close>

theorem read_packet_covers_source:
  assumes "0 < packet_length"
  shows "concat (read_packet f packet_length) = f
       \<and> (\<not> packet_length dvd length f \<longrightarrow>
            read_packet f packet_length \<noteq> []
          \<and> last (read_packet f packet_length) = drop (length f - length f mod packet_length) f
          \<and> last (read_packet f packet_length) \<noteq> []
          \<and> length (last (read_packet f packet_length)) < packet_length)"
proof (intro conjI impI)
  show "concat (read_packet f packet_length) = f"
    using assms by (rule concat_read_packet)
next
  assume nd: "\<not> packet_length dvd length f"
  let ?n = packet_length
  let ?ps = "read_packet f ?n"
  from nd have r: "length f mod ?n \<noteq> 0" by (simp add: dvd_eq_mod_eq_0)
  have len: "length ?ps = Suc (length f div ?n)"
    unfolding length_read_packet[OF assms] using assms r by (rule ceil_div_rem)
  then show ne: "?ps \<noteq> []" by auto
  have "last ?ps = ?ps ! (length f div ?n)"
    using ne len by (simp add: last_conv_nth)
  also have "\<dots> = take ?n (drop (length f div ?n * ?n) f)"
    using assms len by (simp add: nth_read_packet)
  also have "length f div ?n * ?n = length f - length f mod ?n"
    by (simp add: minus_mod_eq_div_mult)
  also have "take ?n (drop (length f - length f mod ?n) f) = drop (length f - length f mod ?n) f"
  proof (rule take_all)
    have "length f mod ?n \<le> length f" by (rule mod_less_eq_dividend)
    then have "length (drop (length f - length f mod ?n) f) = length f mod ?n" by simp
    then show "length (drop (length f - length f mod ?n) f) \<le> ?n" using assms by simp
  qed
  finally show l: "last ?ps = drop (length f - length f mod ?n) f" .
  have "length f mod ?n \<le> length f" by (rule mod_less_eq_dividend)
  then have ll: "length (last ?ps) = length f mod ?n" unfolding l by simp
  show "last ?ps \<noteq> []" using ll r by auto
  show "length (last ?ps) < ?n" using ll assms by simp
qed

text \<open>The amended C10 on six bytes read four at a time.\<close>

theorem read_packet_covers_source_witness:
  "(0::nat) < 4 \<and> \<not> (4::nat) dvd length [1, 2, 3, 4, 5, 6 :: byte]
   \<and> concat (read_packet [1, 2, 3, 4, 5, 6] 4) = [1, 2, 3, 4, 5, 6]
   \<and> last (read_packet [1, 2, 3, 4, 5, 6] 4) = [5, 6]"
proof -
  have pos: "(0::nat) < 4" by simp
  have len: "length [1, 2, 3, 4, 5, 6 :: byte] = 6" by simp
  have nd: "\<not> (4::nat) dvd 6" by presburger
  have m: "(6::nat) - 6 mod 4 = 4" by presburger
  note T = read_packet_covers_source[OF pos, of "[1, 2, 3, 4, 5, 6]", unfolded len]
  have a: "concat (read_packet [1, 2, 3, 4, 5, 6 :: byte] 4) = [1, 2, 3, 4, 5, 6]"
    using conjunct1[OF T] .
  have "last (read_packet [1, 2, 3, 4, 5, 6 :: byte] 4) = drop (6 - 6 mod 4) [1, 2, 3, 4, 5, 6]"
    using conjunct2[OF T] nd by blast
  then have b: "last (read_packet [1, 2, 3, 4, 5, 6 :: byte] 4) = [5, 6]"
    unfolding m by simp
  from pos nd a b show ?thesis unfolding len by blast
qed

text \<open>
  Claim C10 as stated fails for \<open>packet_length = 0\<close>, which \<open>main\<close> passes when the
  header is zero or absent: \<open>read(0)\<close> returns no bytes, the generator stops at once, and
  the single remaining byte, whose count is not a multiple of 0, is not yielded.
\<close>

theorem read_packet_zero_length_counterexample:
  "\<not> (0::nat) dvd length [1 :: byte]
   \<and> read_packet [1] 0 = []
   \<and> concat (read_packet [1] 0) \<noteq> [1]"
  by (simp add: read_packet_zero)

text \<open>
  Claim C1, amended.  When the source holds \<open>k\<close> whole packets followed by content on
  which a read returns a non-empty chunk shorter than \<open>packet_length\<close>, \<open>read_packet\<close>
  yields the whole packets and then that short chunk as its last packet; the chunk is all
  the remaining content.  No error is raised.
\<close>

theorem read_packet_yields_truncated:
  assumes "0 < packet_length"
      and "length whole = k * packet_length"
      and "fst (file_read rest packet_length) = chunk"
      and "chunk \<noteq> []"
      and "length chunk < packet_length"
  shows "read_packet (whole @ rest) packet_length = read_packet whole packet_length @ [chunk]
       \<and> chunk = rest"
proof -
  from assms(3,5) have "length (take packet_length rest) < packet_length"
    by (simp add: file_read_def)
  then have short: "length rest < packet_length" by (simp add: min_def split: if_splits)
  then have c: "chunk = rest" using assms(3) by (simp add: file_read_def)
  have "rest \<noteq> []" using c assms(4) by simp
  then have "read_packet rest packet_length = [rest]"
    using short read_packet_step[OF assms(1), of rest] by (simp add: read_packet_Nil)
  then show ?thesis
    using read_packet_append[OF assms(1,2), of rest] c by simp
qed

text \<open>The amended C1 on one packet of 8 bytes followed by a fragment of 3 bytes.\<close>

theorem read_packet_yields_truncated_witness:
  "(0::nat) < 8 \<and> length [1, 2, 3, 4, 5, 6, 7, 8 :: byte] = 1 * 8
   \<and> fst (file_read [9, 10, 11] 8) = [9, 10, 11] \<and> [9, 10, 11 :: byte] \<noteq> []
   \<and> length [9, 10, 11 :: byte] < 8
   \<and> read_packet ([1, 2, 3, 4, 5, 6, 7, 8] @ [9, 10, 11]) 8
        = read_packet [1, 2, 3, 4, 5, 6, 7, 8] 8 @ [[9, 10, 11]]"
  using read_packet_yields_truncated[of 8 "[1, 2, 3, 4, 5, 6, 7, 8]" 1 "[9, 10, 11]" "[9, 10, 11]"]
  by (simp add: file_read_def)

text \<open>
  Claim C1 as stated fails: with \<open>packet_length = 8\<close> and a trailing fragment of 3 bytes
  the stream does not fail, it yields the fragment as a packet.
\<close>

theorem read_packet_truncated_counterexample:
  "read_packet [1, 2, 3, 4, 5, 6, 7, 8, 9, 10, 11] 8 = [[1, 2, 3, 4, 5, 6, 7, 8], [9, 10, 11]]"
  by (simp add: read_packet_eval)

text \<open>
  Claim C2.  \<open>tlm_display_string\<close> is the depth-first, pre-order traversal that the
  specification's \<open>flatten\<close> describes: for every output flag, tree, base name and
  incoming message, the result is what the scalar branch produces when it is applied, in
  order, to each (path, value) pair of \<open>flatten\<close>, once each.  In the three supported
  modes that is the incoming result followed by one rendering per pair, in traversal order.
\<close>

theorem tlm_display_string_preorder:
  "tlm_display_string output_flag base_object base_name message =
     foldl (\<lambda>result leaf. tlm_display_string output_flag (Scalar (snd leaf)) (fst leaf) result)
           message (flatten base_object base_name)
   \<and> tlm_display_string ''labels'' base_object base_name (result, console) =
       (result @ concat (map (\<lambda>leaf. fst leaf @ '', '') (flatten base_object base_name)), console)
   \<and> tlm_display_string ''values'' base_object base_name (result, console) =
       (result @ concat (map (\<lambda>leaf. snd leaf @ '', '') (flatten base_object base_name)), console)
   \<and> tlm_display_string ''screen'' base_object base_name (result, console) =
       (result @ concat (map (\<lambda>leaf. ljust (fst leaf) 60 @ '' = '' @ snd leaf @ [CHR 0x0A])
                             (flatten base_object base_name)), console)"
proof (intro conjI)
  show "tlm_display_string output_flag base_object base_name message =
     foldl (\<lambda>result leaf. tlm_display_string output_flag (Scalar (snd leaf)) (fst leaf) result)
           message (flatten base_object base_name)"
    by (rule tlm_leaves)
next
  have "render_leaf ''labels'' = (\<lambda>leaf. fst leaf @ '', '')"
    by (rule ext) (simp add: render_leaf_def)
  then show "tlm_display_string ''labels'' base_object base_name (result, console) =
       (result @ concat (map (\<lambda>leaf. fst leaf @ '', '') (flatten base_object base_name)), console)"
    using tlm_known_mode[of "''labels''" base_object base_name result console] by simp
next
  have "render_leaf ''values'' = (\<lambda>leaf. snd leaf @ '', '')"
    by (rule ext) (simp add: render_leaf_def)
  then show "tlm_display_string ''values'' base_object base_name (result, console) =
       (result @ concat (map (\<lambda>leaf. snd leaf @ '', '') (flatten base_object base_name)), console)"
    using tlm_known_mode[of "''values''" base_object base_name result console] by simp
next
  have "render_leaf ''screen'' = (\<lambda>leaf. ljust (fst leaf) 60 @ '' = '' @ snd leaf @ [CHR 0x0A])"
    by (rule ext) (simp add: render_leaf_def)
  then show "tlm_display_string ''screen'' base_object base_name (result, console) =
       (result @ concat (map (\<lambda>leaf. ljust (fst leaf) 60 @ '' = '' @ snd leaf @ [CHR 0x0A])
                             (flatten base_object base_name)), console)"
    using tlm_known_mode[of "''screen''" base_object base_name result console] by simp
qed

text \<open>
  Claim C4.  Two trees of the same structural shape have the same sequence of paths and
  the same output in \<open>labels\<close> mode.  In a supported mode the function is pure: it
  leaves the console untouched and appends to the incoming result a text that depends on
  the flag, the tree and the base name only; so flattening the same tree twice gives the
  same output.
\<close>

theorem tlm_display_string_shape_determined:
  assumes "shape_of treeA = shape_of treeB"
  shows "map fst (flatten treeA base_name) = map fst (flatten treeB base_name)
       \<and> tlm_display_string ''labels'' treeA base_name (result, console) =
         tlm_display_string ''labels'' treeB base_name (result, console)
       \<and> (known_mode output_flag \<longrightarrow>
            tlm_display_string output_flag treeA base_name (result, console) =
              (result @ fst (tlm_display_string output_flag treeA base_name ('''', [])), console))"
proof (intro conjI impI)
  show p: "map fst (flatten treeA base_name) = map fst (flatten treeB base_name)"
    using assms by (rule flatten_paths_shape)
  show "tlm_display_string ''labels'' treeA base_name (result, console) =
        tlm_display_string ''labels'' treeB base_name (result, console)"
    by (simp add: tlm_known_mode render_labels p)
next
  assume "known_mode output_flag"
  then show "tlm_display_string output_flag treeA base_name (result, console) =
              (result @ fst (tlm_display_string output_flag treeA base_name ('''', [])), console)"
    by (simp add: tlm_known_mode)
qed

text \<open>The statement of C4 on two instances of one container type.\<close>

theorem tlm_display_string_shape_determined_witness:
  "shape_of (Container [(''a'', Scalar ''1''), (''b'', Array [Scalar ''2'', Scalar ''3''])])
     = shape_of (Container [(''a'', Scalar ''7''), (''b'', Array [Scalar ''8'', Scalar ''9''])])
   \<and> known_mode ''values''
   \<and> tlm_display_string ''labels''
         (Container [(''a'', Scalar ''1''), (''b'', Array [Scalar ''2'', Scalar ''3''])]) ''T'' ('''', [])
     = tlm_display_string ''labels''
         (Container [(''a'', Scalar ''7''), (''b'', Array [Scalar ''8'', Scalar ''9''])]) ''T'' ('''', [])
   \<and> tlm_display_string ''values''
         (Container [(''a'', Scalar ''1''), (''b'', Array [Scalar ''2'', Scalar ''3''])]) ''T'' (''x, '', [])
     = (''x, 1, 2, 3, '', [])"
proof -
  have s: "shape_of (Container [(''a'', Scalar ''1''), (''b'', Array [Scalar ''2'', Scalar ''3''])])
     = shape_of (Container [(''a'', Scalar ''7''), (''b'', Array [Scalar ''8'', Scalar ''9''])])"
    by simp
  have k: "known_mode ''values''" by (simp add: known_mode_def)
  note T = tlm_display_string_shape_determined[OF s, of "''T''" "''''" "[]" "''values''"]
  have e: "fst (tlm_display_string ''values''
         (Container [(''a'', Scalar ''1''), (''b'', Array [Scalar ''2'', Scalar ''3''])]) ''T'' ('''', []))
       = ''1, 2, 3, ''"
    by (simp add: upt_rec)
  note U = tlm_display_string_shape_determined[OF s, of "''T''" "''x, ''" "[]" "''values''"]
  from U k have "tlm_display_string ''values''
         (Container [(''a'', Scalar ''1''), (''b'', Array [Scalar ''2'', Scalar ''3''])]) ''T'' (''x, '', [])
     = (''x, '' @ fst (tlm_display_string ''values''
         (Container [(''a'', Scalar ''1''), (''b'', Array [Scalar ''2'', Scalar ''3''])]) ''T'' ('''', [])), [])"
    by blast
  then show ?thesis using s k T unfolding e by simp
qed

text \<open>
  Claim C5.  For every byte sequence and every positive \<open>bytes_per_line\<close>,
  \<open>hex_string\<close> applied to the sequence's \<open>hex()\<close> text returns the listing of the
  specification (each byte as \<open>0xHH\<close> in upper case followed by a space, a line break
  after every \<open>bytes_per_line\<close> bytes), and decoding that listing (strip \<open>0x\<close>, strip
  whitespace, read the hexadecimal digits) gives the byte sequence back.
\<close>

theorem hex_string_round_trip:
  assumes "0 < bytes_per_line"
  shows "hex_string (bytes_hex bs) bytes_per_line = Inr (hex_listing bytes_per_line 0 bs)
       \<and> decode_listing (hex_listing bytes_per_line 0 bs) = Some bs"
  using assms by (simp add: hex_string_def hex_string_loop_bytes decode_hex_listing)

text \<open>The statement of C5 on five bytes, two per line.\<close>

theorem hex_string_round_trip_witness:
  "(0::nat) < 2
   \<and> hex_string (bytes_hex [0, 1, 0xAB, 0xFF, 0x10]) 2
       = Inr ''0x00 0x01 \<newline>0xAB 0xFF \<newline>0x10 ''
   \<and> decode_listing ''0x00 0x01 \<newline>0xAB 0xFF \<newline>0x10 '' = Some [0, 1, 0xAB, 0xFF, 0x10]"
proof -
  have l: "hex_listing 2 0 [0, 1, 0xAB, 0xFF, 0x10] = ''0x00 0x01 \<newline>0xAB 0xFF \<newline>0x10 ''"
    by (simp add: render_byte_def upper_hex_digits_def)
  show ?thesis
    using hex_string_round_trip[of 2 "[0, 1, 0xAB, 0xFF, 0x10]"] unfolding l by simp
qed

text \<open>
  Claim C6, amended.  With an output flag other than \<open>screen\<close>, \<open>labels\<close> and
  \<open>values\<close> the function does not fail: every scalar leaf prints the line
  \<open>Something went wrong in tlm_display_string\<close> and resets the result to the empty
  string, so the call returns the empty string when the tree has a leaf, and the incoming
  result when it has none.
\<close>

theorem tlm_display_string_unknown_mode:
  assumes "\<not> known_mode output_flag"
  shows "tlm_display_string output_flag base_object base_name (result, console) =
      (if flatten base_object base_name = [] then result else '''',
       console @ replicate (length (flatten base_object base_name))
                   ''Something went wrong in tlm_display_string'')"
  unfolding tlm_leaves[of output_flag base_object] by (rule foldl_unknown[OF assms])

text \<open>The amended C6 on a container of two scalars.\<close>

theorem tlm_display_string_unknown_mode_witness:
  "\<not> known_mode ''csv''
   \<and> tlm_display_string ''csv'' (Container [(''a'', Scalar ''1''), (''b'', Scalar ''2'')]) ''T''
        (''partial'', [])
     = ('''', [''Something went wrong in tlm_display_string'',
               ''Something went wrong in tlm_display_string''])"
proof -
  have k: "\<not> known_mode ''csv''" by (simp add: known_mode_def)
  have f: "flatten (Container [(''a'', Scalar ''1''), (''b'', Scalar ''2'')]) ''T''
             = [(''T.a'', ''1''), (''T.b'', ''2'')]"
    by simp
  show ?thesis
    using tlm_display_string_unknown_mode[OF k,
            of "Container [(''a'', Scalar ''1''), (''b'', Scalar ''2'')]" "''T''" "''partial''" "[]"] k
    unfolding f by (simp add: numeral_2_eq_2)
qed

text \<open>
  Claim C6 as stated fails: with the flag \<open>csv\<close> the call returns, and what it returns
  is the empty string in place of the text accumulated so far.
\<close>

theorem tlm_display_string_unknown_mode_counterexample:
  "tlm_display_string ''csv'' (Scalar ''7'') ''T'' (''T.a, '', []) =
     ('''', [''Something went wrong in tlm_display_string''])"
  by simp

text \<open>
  Claim C3, amended.  Take a well-formed input: the databases initialise, the file opens,
  its name contains \<open>.bin\<close> so that the CSV path is another path, the CSV file can be
  created, every packet of the stream decodes, and no path or rendered value of a record
  contains a line feed.  Then \<open>main\<close> returns normally and the CSV file has, for
  \<open>N \<ge> 1\<close> packets, exactly \<open>N + 1\<close> lines: the labels of the first record, once and
  first, then the values of each packet in input order.  For \<open>N = 0\<close> it has no line,
  not even a header.
\<close>

theorem main_writes_header_and_rows:
  assumes "database_ok world"
      and "open_rb world filename = Some content"
      and "replace_bin_csv filename \<noteq> filename"
      and "open_w_ok world (replace_bin_csv filename)"
      and "packets = read_packet (drop 4 content) (int_from_bytes (take 4 content))"
      and "\<forall>p \<in> set packets. \<exists>r. decode_message p = Inr r"
      and "\<forall>p \<in> set packets. single_line (decoded decode_message p)"
  shows "fst (main decode_message world screen_flag filename) = Returned
       \<and> file_lines (concat (fout_written (snd (main decode_message world screen_flag filename)))) =
           (if packets = [] then []
            else row_text ''labels'' (decoded decode_message (hd packets))
                 # map (\<lambda>p. row_text ''values'' (decoded decode_message p)) packets)
       \<and> length (file_lines (concat (fout_written
                    (snd (main decode_message world screen_flag filename))))) =
           (if packets = [] then 0 else length packets + 1)"
proof -
  let ?texts = "if packets = [] then []
            else row_text ''labels'' (decoded decode_message (hd packets))
                 # map (\<lambda>p. row_text ''values'' (decoded decode_message p)) packets"
  have sp: "streamed_packets world filename content = packets"
    using assms(3,5) by (simp add: streamed_packets_distinct)
  from main_all_decoded[OF assms(1,2,4), of decode_message screen_flag] assms(6)
  obtain out where m: "main decode_message world screen_flag filename =
      (Returned, \<lparr>fin_open = False, fout_open = False,
                  fout_written = expected_rows decode_message False packets,
                  printed = out, labels_printed = packets \<noteq> []\<rparr>)"
    unfolding sp by blast
  have "\<forall>t \<in> set ?texts. CHR 0x0A \<notin> set t"
    using assms(7) by (auto simp: row_text_single_line)
  then have "file_lines (concat (map (\<lambda>t. t @ [CHR 0x0A]) ?texts)) = ?texts"
    by (rule file_lines_rows)
  then have l: "file_lines (concat (expected_rows decode_message False packets)) = ?texts"
    by (simp only: expected_rows_texts)
  show ?thesis unfolding m by (simp add: l)
qed

text \<open>
  The amended C3 on the specification's scenario: length 8 and the two packets (1, 2)
  and (3, 4).
\<close>

theorem main_writes_header_and_rows_witness:
  "fst (main scenario_decode
          (scenario_world [0, 0, 0, 8, 0, 0, 0, 1, 0, 0, 0, 2, 0, 0, 0, 3, 0, 0, 0, 4])
          False ''tlm.bin'') = Returned
   \<and> file_lines (concat (fout_written (snd (main scenario_decode
          (scenario_world [0, 0, 0, 8, 0, 0, 0, 1, 0, 0, 0, 2, 0, 0, 0, 3, 0, 0, 0, 4])
          False ''tlm.bin''))))
       = [''TypeName.a, TypeName.b, '', ''1, 2, '', ''3, 4, '']"
proof -
  let ?content = "[0, 0, 0, 8, 0, 0, 0, 1, 0, 0, 0, 2, 0, 0, 0, 3, 0, 0, 0, 4] :: byte list"
  let ?packets = "[[0, 0, 0, 1, 0, 0, 0, 2], [0, 0, 0, 3, 0, 0, 0, 4]] :: byte list list"
  have p: "?packets = read_packet (drop 4 ?content) (int_from_bytes (take 4 ?content))"
    by (simp only: scenario_packets)
  have ne: "replace_bin_csv ''tlm.bin'' \<noteq> ''tlm.bin''" by simp
  have w: "open_w_ok (scenario_world ?content) (replace_bin_csv ''tlm.bin'')"
    by (simp add: scenario_world_def)
  have ok: "\<forall>p \<in> set ?packets. \<exists>r. scenario_decode p = Inr r"
    by (simp add: scenario_decode_def)
  have d: "decoded scenario_decode [0, 0, 0, 1, 0, 0, 0, 2] =
             (''TypeName'', Container [(''a'', Scalar ''1''), (''b'', Scalar ''2'')])"
          "decoded scenario_decode [0, 0, 0, 3, 0, 0, 0, 4] =
             (''TypeName'', Container [(''a'', Scalar ''3''), (''b'', Scalar ''4'')])"
    by (simp_all add: decoded_def scenario_decode_def int_from_bytes_def str_nat.simps)
  have sl: "\<forall>p \<in> set ?packets. single_line (decoded scenario_decode p)"
    by (simp add: d single_line_def)
  have rows:
    "row_text ''labels'' (''TypeName'', Container [(''a'', Scalar ''1''), (''b'', Scalar ''2'')])
       = ''TypeName.a, TypeName.b, ''"
    "row_text ''values'' (''TypeName'', Container [(''a'', Scalar ''1''), (''b'', Scalar ''2'')])
       = ''1, 2, ''"
    "row_text ''values'' (''TypeName'', Container [(''a'', Scalar ''3''), (''b'', Scalar ''4'')])
       = ''3, 4, ''"
    by (simp_all add: row_text_def render_leaf_def)
  show ?thesis
    using main_writes_header_and_rows[OF scenario_world_files(1) scenario_world_files(2) ne w p ok sl,
            of False]
    by (simp add: d rows)
qed

text \<open>
  Claim C3 as stated fails twice.  A file that holds the length header only gives no
  line, where the claim counts \<open>0 + 1\<close>.  A file with one packet, whose string member
  contains a line feed, gives three lines, where the claim counts \<open>1 + 1\<close>: the value is
  printed verbatim and breaks its row.
\<close>

theorem main_line_count_counterexample:
  "read_packet (drop 4 [0, 0, 0, 8]) (int_from_bytes (take 4 [0, 0, 0, 8])) = []
   \<and> file_lines (concat (fout_written
        (snd (main scenario_decode (scenario_world [0, 0, 0, 8]) False ''tlm.bin'')))) = []
   \<and> read_packet (drop 4 [0, 0, 0, 2, 72, 10]) (int_from_bytes (take 4 [0, 0, 0, 2, 72, 10]))
       = [[72, 10]]
   \<and> file_lines (concat (fout_written
        (snd (main note_decode (scenario_world [0, 0, 0, 2, 72, 10]) False ''tlm.bin''))))
       = [''Note.text, '', ''.'', '', '']"
proof -
  have a: "read_packet (drop 4 [0, 0, 0, 8]) (int_from_bytes (take 4 [0, 0, 0, 8])) = []"
    by (simp add: read_packet_Nil)
  have b: "file_lines (concat (fout_written
        (snd (main scenario_decode (scenario_world [0, 0, 0, 8]) False ''tlm.bin'')))) = []"
    unfolding scenario_run a by (simp add: file_lines_def)
  have c: "file_lines (concat (fout_written
        (snd (main note_decode (scenario_world [0, 0, 0, 2, 72, 10]) False ''tlm.bin''))))
       = [''Note.text, '', ''.'', '', '']"
    unfolding scenario_run note_packets
    by (simp add: note_decode_def write_row_def file_lines_def)
  from a b note_packets c show ?thesis by blast
qed

text \<open>
  Claim C7, amended.  \<open>packet_length\<close> is the big-endian unsigned value of the first four
  bytes, and it is not validated: when it is 0 (zero or absent header) the run is not
  aborted; once the CSV file is opened, \<open>main\<close> returns normally with no packet
  processed, nothing written and both handles closed.  This holds also when the CSV path
  is the input path, since a read of 0 bytes is empty whatever the file holds.
\<close>

theorem main_unvalidated_length:
  "int_from_bytes [b3, b2, b1, b0] =
      unat b3 * 2 ^ 24 + unat b2 * 2 ^ 16 + unat b1 * 2 ^ 8 + unat b0
   \<and> (database_ok world \<and> open_rb world filename = Some content
       \<and> open_w_ok world (replace_bin_csv filename)
       \<and> int_from_bytes (take 4 content) = 0 \<longrightarrow>
        main decode_message world screen_flag filename =
          (Returned, \<lparr>fin_open = False, fout_open = False, fout_written = [], printed = [],
                      labels_printed = False\<rparr>))"
proof (intro conjI impI)
  show "int_from_bytes [b3, b2, b1, b0] =
      unat b3 * 2 ^ 24 + unat b2 * 2 ^ 16 + unat b1 * 2 ^ 8 + unat b0"
    by (simp add: int_from_bytes_def)
next
  assume a: "database_ok world \<and> open_rb world filename = Some content
       \<and> open_w_ok world (replace_bin_csv filename)
       \<and> int_from_bytes (take 4 content) = 0"
  then have "streamed_packets world filename content = []"
    by (simp add: streamed_packets_zero)
  then show "main decode_message world screen_flag filename =
          (Returned, \<lparr>fin_open = False, fout_open = False, fout_written = [], printed = [],
                      labels_printed = False\<rparr>)"
    using a by (simp add: main_streaming)
qed

text \<open>The amended C7 on a file with a zero header and three more bytes.\<close>

theorem main_unvalidated_length_witness:
  "int_from_bytes (take 4 [0, 0, 0, 0, 1, 2, 3]) = 0
   \<and> main scenario_decode (scenario_world [0, 0, 0, 0, 1, 2, 3]) False ''tlm.bin'' =
       (Returned, \<lparr>fin_open = False, fout_open = False, fout_written = [], printed = [],
                   labels_printed = False\<rparr>)"
proof -
  have z: "int_from_bytes (take 4 [0, 0, 0, 0, 1, 2, 3]) = 0"
    by (simp add: int_from_bytes_def)
  have w: "open_w_ok (scenario_world [0, 0, 0, 0, 1, 2, 3]) (replace_bin_csv ''tlm.bin'')"
    by (simp add: scenario_world_def)
  show ?thesis
    using main_unvalidated_length[of 0 0 0 0 "scenario_world [0, 0, 0, 0, 1, 2, 3]" "''tlm.bin''"
            "[0, 0, 0, 0, 1, 2, 3]" scenario_decode False]
          z w scenario_world_files(1,2)[of "[0, 0, 0, 0, 1, 2, 3]"]
    by blast
qed

text \<open>
  Claim C7 as stated fails: with a zero header, and with an empty file, \<open>main\<close> returns
  normally.
\<close>

theorem main_zero_header_counterexample:
  "int_from_bytes (take 4 [0, 0, 0, 0, 1, 2, 3]) = 0
   \<and> fst (main scenario_decode (scenario_world [0, 0, 0, 0, 1, 2, 3]) False ''tlm.bin'') = Returned
   \<and> int_from_bytes (take 4 []) = 0
   \<and> fst (main scenario_decode (scenario_world []) False ''tlm.bin'') = Returned"
  unfolding scenario_run by (simp add: int_from_bytes_def read_packet_zero)

text \<open>
  Claim C8, amended.  The five exit paths of \<open>main\<close>, which exclude each other and
  cover every run.  The databases do not initialise: \<open>sys.exit(2)\<close> before any file is
  opened.  The source cannot be opened: an exception, no handle open.  The destination
  cannot be opened: an exception, and the source is left open.  A packet of the stream
  fails to decode: an exception, and the source and the destination are both left open.
  Every packet decodes: \<open>main\<close> returns normally and has closed both.  So the driver
  closes the handles on the normal path only.
\<close>

theorem main_exit_paths:
  assumes "r = main decode_message world screen_flag filename"
  shows "(\<not> database_ok world \<longrightarrow>
            fst r = Exited 2 \<and> \<not> fin_open (snd r) \<and> \<not> fout_open (snd r))
       \<and> (database_ok world \<and> open_rb world filename = None \<longrightarrow>
            fst r = Raised OSError \<and> \<not> fin_open (snd r) \<and> \<not> fout_open (snd r))
       \<and> (database_ok world \<and> open_rb world filename = Some content
            \<and> \<not> open_w_ok world (replace_bin_csv filename) \<longrightarrow>
            fst r = Raised OSError \<and> fin_open (snd r) \<and> \<not> fout_open (snd r))
       \<and> (database_ok world \<and> open_rb world filename = Some content
            \<and> open_w_ok world (replace_bin_csv filename)
            \<and> (\<exists>p \<in> set (streamed_packets world filename content).
                  \<exists>e. decode_message p = Inl e) \<longrightarrow>
            (\<exists>e. fst r = Raised e) \<and> fin_open (snd r) \<and> fout_open (snd r))
       \<and> (database_ok world \<and> open_rb world filename = Some content
            \<and> open_w_ok world (replace_bin_csv filename)
            \<and> (\<forall>p \<in> set (streamed_packets world filename content).
                  \<exists>x. decode_message p = Inr x) \<longrightarrow>
            fst r = Returned \<and> \<not> fin_open (snd r) \<and> \<not> fout_open (snd r))"
proof (intro conjI impI)
  assume "\<not> database_ok world"
  then have "r = (Exited 2, \<lparr>fin_open = False, fout_open = False, fout_written = [],
                 printed = [''convert_tlm_file.py is not properly configured''],
                 labels_printed = False\<rparr>)"
    unfolding assms by (rule main_no_database)
  then show "fst r = Exited 2" "\<not> fin_open (snd r)" "\<not> fout_open (snd r)" by simp_all
next
  assume "database_ok world \<and> open_rb world filename = None"
  then have "r = (Raised OSError, \<lparr>fin_open = False, fout_open = False, fout_written = [],
                     printed = [], labels_printed = False\<rparr>)"
    unfolding assms by (simp add: main_no_source)
  then show "fst r = Raised OSError" "\<not> fin_open (snd r)" "\<not> fout_open (snd r)" by simp_all
next
  assume "database_ok world \<and> open_rb world filename = Some content
            \<and> \<not> open_w_ok world (replace_bin_csv filename)"
  then have "r = (Raised OSError, \<lparr>fin_open = True, fout_open = False, fout_written = [],
                     printed = [], labels_printed = False\<rparr>)"
    unfolding assms by (simp add: main_no_destination)
  then show "fst r = Raised OSError" "fin_open (snd r)" "\<not> fout_open (snd r)" by simp_all
next
  assume a: "database_ok world \<and> open_rb world filename = Some content
            \<and> open_w_ok world (replace_bin_csv filename)
            \<and> (\<exists>p \<in> set (streamed_packets world filename content).
                  \<exists>e. decode_message p = Inl e)"
  then have "(\<exists>e. fst r = Raised e) \<and> fin_open (snd r) \<and> fout_open (snd r)"
    unfolding assms using main_decode_raises[of world filename content decode_message screen_flag]
    by blast
  then show "\<exists>e. fst r = Raised e" "fin_open (snd r)" "fout_open (snd r)" by simp_all
next
  assume a: "database_ok world \<and> open_rb world filename = Some content
            \<and> open_w_ok world (replace_bin_csv filename)
            \<and> (\<forall>p \<in> set (streamed_packets world filename content).
                  \<exists>x. decode_message p = Inr x)"
  then obtain out where "r = (Returned, \<lparr>fin_open = False, fout_open = False,
                  fout_written = expected_rows decode_message False
                                   (streamed_packets world filename content),
                  printed = out,
                  labels_printed = streamed_packets world filename content \<noteq> []\<rparr>)"
    unfolding assms using main_all_decoded[of world filename content decode_message screen_flag]
    by blast
  then show "fst r = Returned" "\<not> fin_open (snd r)" "\<not> fout_open (snd r)" by simp_all
qed

text \<open>The amended C8 on one run for each of the five paths.\<close>

theorem main_exit_paths_witness:
  "fst (main scenario_decode (scenario_world [0, 0, 0, 8, 0, 0, 0, 1, 0, 0, 0, 2]) False ''tlm.bin'')
     = Returned
   \<and> \<not> fin_open (snd (main scenario_decode
           (scenario_world [0, 0, 0, 8, 0, 0, 0, 1, 0, 0, 0, 2]) False ''tlm.bin''))
   \<and> \<not> fout_open (snd (main scenario_decode
           (scenario_world [0, 0, 0, 8, 0, 0, 0, 1, 0, 0, 0, 2]) False ''tlm.bin''))
   \<and> fin_open (snd (main scenario_decode (scenario_world [0, 0, 0, 8, 9, 9, 9]) False ''tlm.bin''))
   \<and> fout_open (snd (main scenario_decode (scenario_world [0, 0, 0, 8, 9, 9, 9]) False ''tlm.bin''))
   \<and> fin_open (snd (main scenario_decode (readonly_world [0, 0, 0, 8]) False ''tlm.bin''))
   \<and> \<not> fout_open (snd (main scenario_decode (readonly_world [0, 0, 0, 8]) False ''tlm.bin''))
   \<and> fst (main scenario_decode (scenario_world [0, 0, 0, 8]) False ''other.bin'') = Raised OSError
   \<and> fst (main scenario_decode ((scenario_world [0, 0, 0, 8])\<lparr>database_ok := False\<rparr>) False
             ''tlm.bin'') = Exited 2"
proof -
  let ?good = "[0, 0, 0, 8, 0, 0, 0, 1, 0, 0, 0, 2] :: byte list"
  let ?bad = "[0, 0, 0, 8, 9, 9, 9] :: byte list"
  have gp: "streamed_packets (scenario_world ?good) ''tlm.bin'' ?good = [[0, 0, 0, 1, 0, 0, 0, 2]]"
    unfolding scenario_streamed by (simp add: int_from_bytes_def read_packet_eval)
  have bp: "streamed_packets (scenario_world ?bad) ''tlm.bin'' ?bad = [[9, 9, 9]]"
    unfolding scenario_streamed by (simp add: int_from_bytes_def read_packet_eval)
  have g: "fst (main scenario_decode (scenario_world ?good) False ''tlm.bin'') = Returned
         \<and> \<not> fin_open (snd (main scenario_decode (scenario_world ?good) False ''tlm.bin''))
         \<and> \<not> fout_open (snd (main scenario_decode (scenario_world ?good) False ''tlm.bin''))"
    using main_exit_paths[OF refl, where decode_message = scenario_decode and world = "scenario_world ?good"
            and screen_flag = False and filename = "''tlm.bin''" and content = ?good]
    unfolding gp by (simp add: scenario_world_def scenario_decode_def)
  have b: "fin_open (snd (main scenario_decode (scenario_world ?bad) False ''tlm.bin''))
         \<and> fout_open (snd (main scenario_decode (scenario_world ?bad) False ''tlm.bin''))"
    using main_exit_paths[OF refl, where decode_message = scenario_decode and world = "scenario_world ?bad"
            and screen_flag = False and filename = "''tlm.bin''" and content = ?bad]
    unfolding bp by (simp add: scenario_world_def scenario_decode_def)
  have r: "fin_open (snd (main scenario_decode (readonly_world [0, 0, 0, 8]) False ''tlm.bin''))
         \<and> \<not> fout_open (snd (main scenario_decode (readonly_world [0, 0, 0, 8]) False ''tlm.bin''))"
    using main_exit_paths[OF refl, where decode_message = scenario_decode and world = "readonly_world [0, 0, 0, 8]"
            and screen_flag = False and filename = "''tlm.bin''" and content = "[0, 0, 0, 8]"]
    by (simp add: readonly_world_def)
  have s: "fst (main scenario_decode (scenario_world [0, 0, 0, 8]) False ''other.bin'') = Raised OSError"
    using main_exit_paths[OF refl, where decode_message = scenario_decode and world = "scenario_world [0, 0, 0, 8]"
            and screen_flag = False and filename = "''other.bin''" and content = "[]"]
    by (simp add: scenario_world_def)
  have d: "fst (main scenario_decode ((scenario_world [0, 0, 0, 8])\<lparr>database_ok := False\<rparr>) False
             ''tlm.bin'') = Exited 2"
    using main_exit_paths[OF refl, where decode_message = scenario_decode and world = "(scenario_world [0, 0, 0, 8])\<lparr>database_ok := False\<rparr>"
            and screen_flag = False and filename = "''tlm.bin''" and content = "[]"]
    by simp
  from g b r s d show ?thesis by blast
qed

text \<open>
  Claim C8 as stated fails: a decode error during streaming ends the run with the source
  and the destination open, and a destination that cannot be created ends it with the
  source open.
\<close>

theorem main_open_handles_counterexample:
  "main scenario_decode (scenario_world [0, 0, 0, 8, 9, 9, 9]) False ''tlm.bin'' =
     (Raised DecodeError,
      \<lparr>fin_open = True, fout_open = True, fout_written = [], printed = [],
       labels_printed = False\<rparr>)
   \<and> main scenario_decode (readonly_world [0, 0, 0, 8]) False ''tlm.bin'' =
     (Raised OSError,
      \<lparr>fin_open = True, fout_open = False, fout_written = [], printed = [],
       labels_printed = False\<rparr>)"
proof -
  have "main scenario_decode (scenario_world [0, 0, 0, 8, 9, 9, 9]) False ''tlm.bin'' =
     (Raised DecodeError,
      \<lparr>fin_open = True, fout_open = True, fout_written = [], printed = [],
       labels_printed = False\<rparr>)"
    unfolding scenario_run
    by (simp add: int_from_bytes_def read_packet_eval scenario_decode_def)
  moreover have "main scenario_decode (readonly_world [0, 0, 0, 8]) False ''tlm.bin'' =
     (Raised OSError,
      \<lparr>fin_open = True, fout_open = False, fout_written = [], printed = [],
       labels_printed = False\<rparr>)"
    by (rule main_no_destination) (simp_all add: readonly_world_def)
  ultimately show ?thesis by blast
qed

end
